theory Spec2Isabelle
  imports Main "HOL-Library.Sublist"
begin

section \<open>Python values\<close>

text \<open>
  The configuration tree is what \<^verbatim>\<open>json.load\<close> returns: \<^verbatim>\<open>None\<close>, a bool, an int, a
  float, a str, a list, or a dict with string keys. A dict keeps its insertion order and
  is modelled as an association list; the predicate \<open>wf_json\<close> below says that the keys of
  every dict are distinct, as they are in every Python dict. Numbers are never inspected
  by the program; a float is kept as a pair of integers (mantissa and exponent).
  Strings are lists of \<open>char\<close>, that is of code points below 256.
\<close>

datatype json =
    JNull
  | JBool bool
  | JInt int
  | JFloat int int
  | JStr string
  | JList "json list"
  | JDict "(string \<times> json) list"

type_synonym pydict = "(string \<times> json) list"

fun is_scalar :: "json \<Rightarrow> bool" where
  "is_scalar (JList _) = False"
| "is_scalar (JDict _) = False"
| "is_scalar _ = True"

fun wf_json :: "json \<Rightarrow> bool" where
  "wf_json (JList xs) = list_all wf_json xs"
| "wf_json (JDict kvs) = (distinct (map fst kvs) \<and> list_all (\<lambda>kv. wf_json (snd kv)) kvs)"
| "wf_json _ = True"

text \<open>\<^verbatim>\<open>d[key] = v\<close>: an existing key keeps its place, a new key goes to the end.\<close>

fun dict_set :: "pydict \<Rightarrow> string \<Rightarrow> json \<Rightarrow> pydict" where
  "dict_set [] k v = [(k, v)]"
| "dict_set ((k', v') # kvs) k v =
     (if k' = k then (k, v) # kvs else (k', v') # dict_set kvs k v)"

section \<open>The part of Python's string and \<^verbatim>\<open>re\<close> libraries that the program uses\<close>

text \<open>
  Whitespace as \<^verbatim>\<open>str.strip\<close> and the class \<^verbatim>\<open>\s\<close> see it, for code points below 256:
  TAB to CR, FS to US and the space, NEL (0x85) and the no-break space (0xA0).
\<close>

definition is_space :: "char \<Rightarrow> bool" where
  "is_space c = (let n = (of_char c :: nat) in
     (9 \<le> n \<and> n \<le> 13) \<or> (28 \<le> n \<and> n \<le> 32) \<or> n = 133 \<or> n = 160)"

definition py_strip :: "string \<Rightarrow> string" where
  "py_strip s = rev (dropWhile is_space (rev (dropWhile is_space s)))"

text \<open>\<^verbatim>\<open>s.replace(old, new)\<close>: the occurrences of \<open>old\<close>, left to right, without overlap; an
  empty \<open>old\<close> puts \<open>new\<close> before every character and at the end.\<close>

function replace_scan :: "string \<Rightarrow> string \<Rightarrow> string \<Rightarrow> string" where
  "replace_scan old new s =
     (if old \<noteq> [] \<and> prefix old s then new @ replace_scan old new (drop (length old) s)
      else (case s of [] \<Rightarrow> [] | c # cs \<Rightarrow> c # replace_scan old new cs))"
  by pat_completeness auto
termination
  by (relation "measure (\<lambda>(old, new, s). length s)") (auto simp: prefix_def)

definition py_replace :: "string \<Rightarrow> string \<Rightarrow> string \<Rightarrow> string" where
  "py_replace s old new =
     (if old = [] then new @ concat (map (\<lambda>c. c # new) s) else replace_scan old new s)"

text \<open>Decimal rendering of a list index, as \<^verbatim>\<open>f"{idx}"\<close> gives it.\<close>

definition digit_char :: "nat \<Rightarrow> char" where
  "digit_char d = ''0123456789'' ! d"

fun py_str_nat :: "nat \<Rightarrow> string" where
  "py_str_nat n = (if n < 10 then [digit_char n] else py_str_nat (n div 10) @ [digit_char (n mod 10)])"

subsection \<open>Regular expressions\<close>

text \<open>
  Patterns are kept as syntax trees and run by a backtracking matcher in the order
  Python's engine tries things: the left alternative first, a star as long as possible
  first. \<open>rx ic r (n, s, g)\<close> lists, in that order, every way \<open>r\<close> can match at the front
  of \<open>s\<close>, where \<open>n\<close> characters of the subject lie before \<open>s\<close> and \<open>g\<close> is the text of
  group 1 so far; each result is the state after the match. The first result is the
  match Python reports. \<open>ic\<close> is the flag \<^verbatim>\<open>re.IGNORECASE\<close>.
  No pattern of the program has more than one capturing group, and every starred
  expression is a single character, so one capture slot is kept and a star drops
  iterations that consume nothing.
\<close>

datatype citem = CChar char | CRange char char | CSpace

datatype atom = Lit char | Dot | Cls "citem list" | NCls "citem list"

datatype regex =
    Chr atom
  | Eps
  | Bol
  | Eol
  | Seq regex regex
  | Alt regex regex
  | Star regex
  | Group regex

definition lower_char :: "char \<Rightarrow> char" where
  "lower_char c =
     (case map_of (zip ''ABCDEFGHIJKLMNOPQRSTUVWXYZ'' ''abcdefghijklmnopqrstuvwxyz'') c of
        Some l \<Rightarrow> l | None \<Rightarrow> c)"

definition upper_char :: "char \<Rightarrow> char" where
  "upper_char c =
     (case map_of (zip ''abcdefghijklmnopqrstuvwxyz'' ''ABCDEFGHIJKLMNOPQRSTUVWXYZ'') c of
        Some u \<Rightarrow> u | None \<Rightarrow> c)"

fun citem_match :: "citem \<Rightarrow> char \<Rightarrow> bool" where
  "citem_match (CChar a) c = (c = a)"
| "citem_match (CRange a b) c =
     ((of_char a :: nat) \<le> of_char c \<and> (of_char c :: nat) \<le> of_char b)"
| "citem_match CSpace c = is_space c"

definition cls_match :: "bool \<Rightarrow> citem list \<Rightarrow> char \<Rightarrow> bool" where
  "cls_match ic items c =
     list_ex (\<lambda>i. citem_match i c \<or>
        (ic \<and> (citem_match i (lower_char c) \<or> citem_match i (upper_char c)))) items"

fun atom_match :: "bool \<Rightarrow> atom \<Rightarrow> char \<Rightarrow> bool" where
  "atom_match ic (Lit a) c = (c = a \<or> (ic \<and> lower_char c = lower_char a))"
| "atom_match ic Dot c = (c \<noteq> CHR 0x0A)"
| "atom_match ic (Cls items) c = cls_match ic items c"
| "atom_match ic (NCls items) c = (\<not> cls_match ic items c)"

type_synonym mstate = "nat \<times> string \<times> string option"

function rx :: "bool \<Rightarrow> regex \<Rightarrow> mstate \<Rightarrow> mstate list" where
  "rx ic (Chr a) (n, s, g) =
     (case s of [] \<Rightarrow> [] | c # cs \<Rightarrow> if atom_match ic a c then [(Suc n, cs, g)] else [])"
| "rx ic Eps st = [st]"
| "rx ic Bol (n, s, g) = (if n = 0 then [(n, s, g)] else [])"
| "rx ic Eol (n, s, g) = (if s = [] \<or> s = [CHR 0x0A] then [(n, s, g)] else [])"
| "rx ic (Seq a b) st = concat (map (rx ic b) (rx ic a st))"
| "rx ic (Alt a b) st = rx ic a st @ rx ic b st"
| "rx ic (Star a) (n, s, g) =
     concat (map (rx ic (Star a))
       (filter (\<lambda>st'. length (fst (snd st')) < length s) (rx ic a (n, s, g))))
     @ [(n, s, g)]"
| "rx ic (Group a) (n, s, g) =
     map (\<lambda>(n', s', _). (n', s', Some (take (n' - n) s))) (rx ic a (n, s, g))"
  by pat_completeness auto
termination
  by (relation "measures [\<lambda>(ic, r, st). size r, \<lambda>(ic, r, (n, s, g)). length s]") auto

text \<open>Pattern syntax: a literal string, a sequence, an alternation, \<^verbatim>\<open>r?\<close> and \<^verbatim>\<open>r+\<close>.\<close>

definition lit :: "string \<Rightarrow> regex" where
  "lit s = foldr (\<lambda>c r. Seq (Chr (Lit c)) r) s Eps"

definition cat :: "regex list \<Rightarrow> regex" where
  "cat rs = foldr Seq rs Eps"

fun alts :: "regex list \<Rightarrow> regex" where
  "alts [] = Chr (Cls [])"
| "alts [r] = r"
| "alts (r # rs) = Alt r (alts rs)"

definition Optional :: "regex \<Rightarrow> regex" where
  "Optional r = Alt r Eps"

definition OneOrMore :: "regex \<Rightarrow> regex" where
  "OneOrMore r = Seq r (Star r)"

text \<open>\<^verbatim>\<open>re.match(pattern, string, flags)\<close>: a match at position 0, or \<^verbatim>\<open>None\<close>.\<close>

definition re_match :: "bool \<Rightarrow> regex \<Rightarrow> string \<Rightarrow> mstate option" where
  "re_match ic p s = (case rx ic p (0, s, None) of [] \<Rightarrow> None | r # _ \<Rightarrow> Some r)"

text \<open>A replacement template: \<^verbatim>\<open>\1\<close> and literal text.\<close>

datatype titem = TGroup | TText string

fun expand :: "titem list \<Rightarrow> string option \<Rightarrow> string" where
  "expand [] g = []"
| "expand (TGroup # t) g = (case g of Some x \<Rightarrow> x | None \<Rightarrow> []) @ expand t g"
| "expand (TText x # t) g = x @ expand t g"

text \<open>
  \<^verbatim>\<open>re.sub(pattern, repl, string)\<close>: the leftmost match is replaced, the scan goes on
  behind it; where nothing matches, one character is copied. After an empty match the
  next match at the same place must consume something (\<open>adv\<close>).
\<close>

function re_sub_from :: "regex \<Rightarrow> titem list \<Rightarrow> bool \<Rightarrow> nat \<Rightarrow> string \<Rightarrow> string" where
  "re_sub_from p t adv n s =
     (case filter (\<lambda>st'. \<not> adv \<or> length (fst (snd st')) < length s) (rx False p (n, s, None)) of
        (n', s', g) # _ \<Rightarrow>
          expand t g @
            (if length s' < length s then re_sub_from p t False n' s'
             else re_sub_from p t True n s)
      | [] \<Rightarrow> (case s of [] \<Rightarrow> [] | c # cs \<Rightarrow> c # re_sub_from p t False (Suc n) cs))"
  by pat_completeness auto
termination
  by (relation "measure (\<lambda>(p, t, adv, n, s). 2 * length s + (if adv then 0 else 1))")
     (auto dest!: Cons_eq_filterD [OF sym])

definition re_sub :: "regex \<Rightarrow> titem list \<Rightarrow> string \<Rightarrow> string" where
  "re_sub p t s = re_sub_from p t False 0 s"

section \<open>sanitize.py\<close>

definition PLACEHOLDER :: string where
  "PLACEHOLDER = ''PLACEHOLDER''"

text \<open>Layer 1, \<^verbatim>\<open>SENSITIVE_KEY_PATTERNS\<close>, in the order of the source.\<close>

definition SENSITIVE_KEY_PATTERNS :: "regex list" where
  "SENSITIVE_KEY_PATTERNS =
    [ cat [Star (Chr Dot), lit ''_TOKEN'', Eol],
      cat [Star (Chr Dot), lit ''_API_KEY'', Eol],
      cat [Star (Chr Dot), lit ''_APP_KEY'', Eol],
      cat [Star (Chr Dot), lit ''_PASSWORD'', Eol],
      cat [Star (Chr Dot), lit ''_SECRET'', Eol],
      cat [Star (Chr Dot), lit ''_PAT'', Eol],
      cat [Bol, lit ''Authorization'', Eol],
      cat [Bol, lit ''token'', Eol],
      cat [Bol, lit ''api'', Optional (Chr (Cls [CChar CHR ''_'', CChar CHR ''-''])),
           lit ''key'', Eol] ]"

text \<open>Layer 3, \<^verbatim>\<open>VALUE_SCAN_PATTERNS\<close>: connection strings, then URLs with a token or key
  query parameter. Each replacement is \<^verbatim>\<open>\1\<close> followed by the placeholder.\<close>

definition CONN_SCHEMES :: "string list" where
  "CONN_SCHEMES = [''postgres'', ''postgresql'', ''mongodb'', ''mongodb+srv'', ''mysql'',
     ''redis'', ''amqp'', ''rabbitmq'']"

definition QUERY_KEYS :: "string list" where
  "QUERY_KEYS = [''token'', ''key'', ''api_key'', ''apikey'', ''access_token'', ''secret'']"

definition CONN_PATTERN :: regex where
  "CONN_PATTERN =
     cat [Group (cat [alts (map lit CONN_SCHEMES), lit ''://'']),
          OneOrMore (Chr (NCls [CSpace, CChar (CHR 0x22)]))]"

definition URL_PATTERN :: regex where
  "URL_PATTERN =
     cat [Group (cat [lit ''http'', Optional (Chr (Lit CHR ''s'')), lit ''://'',
                      Star (Chr (NCls [CChar (CHR 0x22)])),
                      Chr (Cls [CChar CHR ''?'', CChar CHR ''&'']),
                      alts (map lit QUERY_KEYS), lit ''='']),
          OneOrMore (Chr (NCls [CChar (CHR 0x22), CChar CHR ''&'']))]"

definition VALUE_SCAN_PATTERNS :: "(regex \<times> titem list) list" where
  "VALUE_SCAN_PATTERNS =
     [(CONN_PATTERN, [TGroup, TText PLACEHOLDER]),
      (URL_PATTERN, [TGroup, TText PLACEHOLDER])]"

definition is_sensitive_key :: "string \<Rightarrow> bool" where
  "is_sensitive_key key =
     list_ex (\<lambda>pattern. re_match True pattern key \<noteq> None) SENSITIVE_KEY_PATTERNS"

fun is_already_placeholder :: "json \<Rightarrow> bool" where
  "is_already_placeholder (JStr s) = (s = PLACEHOLDER \<or> s = ''Bearer '' @ PLACEHOLDER)"
| "is_already_placeholder _ = False"

text \<open>\<^verbatim>\<open>sanitize_value\<close>. The calls of \<^verbatim>\<open>detect_token_type\<close> and \<^verbatim>\<open>print\<close> only write the
  log and are left out, here and in the walkers; so are the arguments \<^verbatim>\<open>key_path\<close>,
  \<^verbatim>\<open>path\<close> and \<^verbatim>\<open>quiet\<close>, which only feed them (the paths are modelled by \<open>field_paths\<close>
  below).\<close>

definition sanitize_value :: "json \<Rightarrow> json \<times> bool" where
  "sanitize_value v =
     (if is_already_placeholder v then (v, False)
      else (case v of
              JStr s \<Rightarrow>
                if prefix ''Bearer '' s then (JStr (''Bearer '' @ PLACEHOLDER), True)
                else if py_strip s \<noteq> [] then (JStr PLACEHOLDER, True)
                else (v, False)
            | _ \<Rightarrow> (v, False)))"

text \<open>\<^verbatim>\<open>sanitize_dict\<close> and \<^verbatim>\<open>sanitize_list\<close>; each \<^verbatim>\<open>for\<close> loop is a function over the
  entries still to visit, with \<open>result\<close> and \<open>total_changes\<close> as accumulators.\<close>

function sanitize_dict :: "pydict \<Rightarrow> pydict \<times> nat"
  and sanitize_dict_loop :: "pydict \<Rightarrow> pydict \<Rightarrow> nat \<Rightarrow> pydict \<times> nat"
  and sanitize_list :: "json list \<Rightarrow> json list \<times> nat"
  and sanitize_list_loop :: "json list \<Rightarrow> json list \<Rightarrow> nat \<Rightarrow> json list \<times> nat"
where
  "sanitize_dict data = sanitize_dict_loop data [] 0"
| "sanitize_dict_loop [] result total_changes = (result, total_changes)"
| "sanitize_dict_loop ((key, v) # rest) result total_changes =
     (case v of
        JDict d \<Rightarrow>
          (case sanitize_dict d of (sanitized, changes) \<Rightarrow>
             sanitize_dict_loop rest (dict_set result key (JDict sanitized))
               (total_changes + changes))
      | JList l \<Rightarrow>
          (case sanitize_list l of (sanitized, changes) \<Rightarrow>
             sanitize_dict_loop rest (dict_set result key (JList sanitized))
               (total_changes + changes))
      | _ \<Rightarrow>
          if is_sensitive_key key then
            (case sanitize_value v of (sanitized_val, modified) \<Rightarrow>
               sanitize_dict_loop rest (dict_set result key sanitized_val)
                 (if modified then total_changes + 1 else total_changes))
          else sanitize_dict_loop rest (dict_set result key v) total_changes)"
| "sanitize_list data = sanitize_list_loop data [] 0"
| "sanitize_list_loop [] result total_changes = (result, total_changes)"
| "sanitize_list_loop (item # rest) result total_changes =
     (case item of
        JDict d \<Rightarrow>
          (case sanitize_dict d of (sanitized, changes) \<Rightarrow>
             sanitize_list_loop rest (result @ [JDict sanitized]) (total_changes + changes))
      | JList l \<Rightarrow>
          (case sanitize_list l of (sanitized, changes) \<Rightarrow>
             sanitize_list_loop rest (result @ [JList sanitized]) (total_changes + changes))
      | _ \<Rightarrow> sanitize_list_loop rest (result @ [item]) total_changes)"
  by pat_completeness auto
termination
  by (relation "measure (\<lambda>x. case x of
        Inl (Inl d) \<Rightarrow> 2 * size (JDict d) + 1
      | Inl (Inr (d, _, _)) \<Rightarrow> 2 * size (JDict d)
      | Inr (Inl l) \<Rightarrow> 2 * size (JList l) + 1
      | Inr (Inr (l, _, _)) \<Rightarrow> 2 * size (JList l))") auto

text \<open>\<^verbatim>\<open>scan_values\<close>: the loop over \<^verbatim>\<open>VALUE_SCAN_PATTERNS\<close>, and the walk.\<close>

fun scan_patterns :: "(regex \<times> titem list) list \<Rightarrow> string \<Rightarrow> nat \<Rightarrow> string \<times> nat" where
  "scan_patterns [] modified total_changes = (modified, total_changes)"
| "scan_patterns ((pattern, replacement) # rest) modified total_changes =
     (let new_val = re_sub pattern replacement modified in
      if new_val \<noteq> modified then scan_patterns rest new_val (total_changes + 1)
      else scan_patterns rest modified total_changes)"

function scan_values :: "json \<Rightarrow> json \<times> nat"
  and scan_dict_loop :: "pydict \<Rightarrow> pydict \<Rightarrow> nat \<Rightarrow> pydict \<times> nat"
  and scan_list_loop :: "json list \<Rightarrow> json list \<Rightarrow> nat \<Rightarrow> json list \<times> nat"
where
  "scan_values data =
     (case data of
        JDict d \<Rightarrow> (case scan_dict_loop d [] 0 of (result, total_changes) \<Rightarrow>
                      (JDict result, total_changes))
      | JList l \<Rightarrow> (case scan_list_loop l [] 0 of (result, total_changes) \<Rightarrow>
                      (JList result, total_changes))
      | JStr s \<Rightarrow>
          if \<not> is_already_placeholder data then
            (case scan_patterns VALUE_SCAN_PATTERNS s 0 of (modified, total_changes) \<Rightarrow>
               (JStr modified, total_changes))
          else (data, 0)
      | _ \<Rightarrow> (data, 0))"
| "scan_dict_loop [] result total_changes = (result, total_changes)"
| "scan_dict_loop ((key, v) # rest) result total_changes =
     (case scan_values v of (sanitized, changes) \<Rightarrow>
        scan_dict_loop rest (dict_set result key sanitized) (total_changes + changes))"
| "scan_list_loop [] result total_changes = (result, total_changes)"
| "scan_list_loop (item # rest) result total_changes =
     (case scan_values item of (sanitized, changes) \<Rightarrow>
        scan_list_loop rest (result @ [sanitized]) (total_changes + changes))"
  by pat_completeness auto
termination
  by (relation "measure (\<lambda>x. case x of
        Inl data \<Rightarrow> 2 * size data + 1
      | Inr (Inl (d, _, _)) \<Rightarrow> 2 * size (JDict d)
      | Inr (Inr (l, _, _)) \<Rightarrow> 2 * size (JList l))") auto

text \<open>The two passes as \<^verbatim>\<open>sanitize_json_file\<close> runs them on the parsed document (lines
  223 to 229): the key pass, then the value scan on its result. \<^verbatim>\<open>sanitize_dict\<close> calls
  \<^verbatim>\<open>data.items()\<close>, which raises \<^verbatim>\<open>AttributeError\<close> on anything but a dict.\<close>

datatype py_error = AttributeError | PermissionError

definition run_passes :: "json \<Rightarrow> py_error + (json \<times> nat \<times> nat)" where
  "run_passes data =
     (case data of
        JDict d \<Rightarrow>
          (case sanitize_dict d of (sanitized_data, key_changes) \<Rightarrow>
             (case scan_values (JDict sanitized_data) of (sanitized_data', value_changes) \<Rightarrow>
                Inr (sanitized_data', key_changes, value_changes)))
      | _ \<Rightarrow> Inl AttributeError)"

text \<open>The engine's result: the final tree and \<^verbatim>\<open>total_changes = key_changes + value_changes\<close>.\<close>

definition engine :: "json \<Rightarrow> py_error + (json \<times> nat)" where
  "engine data =
     (case run_passes data of
        Inl e \<Rightarrow> Inl e
      | Inr (sanitized_data, key_changes, value_changes) \<Rightarrow>
          Inr (sanitized_data, key_changes + value_changes))"

text \<open>\<^verbatim>\<open>sanitize_paths\<close>; \<open>home\<close> is what \<^verbatim>\<open>os.path.expanduser("~")\<close> returns.\<close>

definition HOME_PATTERN :: regex where
  "HOME_PATTERN =
     cat [lit ''/'', alts [lit ''Users'', lit ''home''], lit ''/'',
          OneOrMore (Chr (Cls [CRange CHR ''a'' CHR ''z'', CRange CHR ''A'' CHR ''Z'',
                               CRange CHR ''0'' CHR ''9'', CChar CHR ''.'', CChar CHR ''_'',
                               CChar CHR ''-''])),
          lit ''/'']"

definition sanitize_paths :: "string \<Rightarrow> string \<Rightarrow> string \<times> nat" where
  "sanitize_paths home content =
     (let original = content;
          content1 = py_replace content home ''~'';
          content2 = re_sub HOME_PATTERN [TText ''~/''] content1;
          changes = (if content2 \<noteq> original then 1 else 0)
      in (content2, changes))"

text \<open>
  Files. A file has a content and may be readable and writable; \<^verbatim>\<open>open\<close> raises
  \<^verbatim>\<open>PermissionError\<close> (an \<^verbatim>\<open>OSError\<close>) where the mode is not allowed. \<^verbatim>\<open>json.load\<close>,
  \<^verbatim>\<open>json.dump\<close> and \<^verbatim>\<open>Path.suffix\<close> are library functions and stay parameters;
  \<open>json_load\<close> returns \<open>None\<close> where Python raises \<^verbatim>\<open>JSONDecodeError\<close>. A function that
  returns \<open>Inl e\<close> has let the exception \<open>e\<close> escape.
\<close>

record pyfile =
  content :: string
  readable :: bool
  writable :: bool

type_synonym filesystem = "string \<Rightarrow> pyfile option"

definition sanitize_json_file ::
  "(string \<Rightarrow> json option) \<Rightarrow> (json \<Rightarrow> string) \<Rightarrow> filesystem \<Rightarrow> string \<Rightarrow> bool
     \<Rightarrow> py_error + (bool \<times> filesystem)" where
  "sanitize_json_file json_load json_dump fs file_path dry_run =
     (case fs file_path of
        None \<Rightarrow> Inr (False, fs)
      | Some f \<Rightarrow>
          if \<not> readable f then Inl PermissionError
          else (case json_load (content f) of
                  None \<Rightarrow> Inr (False, fs)
                | Some data \<Rightarrow>
                    (case run_passes data of
                       Inl e \<Rightarrow> Inl e
                     | Inr (sanitized_data, key_changes, value_changes) \<Rightarrow>
                         let total_changes = key_changes + value_changes in
                         if total_changes = 0 then Inr (False, fs)
                         else if dry_run then Inr (True, fs)
                         else if \<not> writable f then Inl PermissionError
                         else Inr (True, fs(file_path \<mapsto>
                                f\<lparr>content := json_dump sanitized_data @ [CHR 0x0A]\<rparr>)))))"

definition sanitize_text_file ::
  "string \<Rightarrow> filesystem \<Rightarrow> string \<Rightarrow> bool \<Rightarrow> py_error + (bool \<times> filesystem)" where
  "sanitize_text_file home fs file_path dry_run =
     (case fs file_path of
        None \<Rightarrow> Inr (False, fs)
      | Some f \<Rightarrow>
          if \<not> readable f then Inr (False, fs)
          else (case sanitize_paths home (content f) of (sanitized, changes) \<Rightarrow>
                  if changes = 0 then Inr (False, fs)
                  else if dry_run then Inr (True, fs)
                  else if \<not> writable f then Inl PermissionError
                  else Inr (True, fs(file_path \<mapsto> f\<lparr>content := sanitized\<rparr>))))"

text \<open>The loop of \<^verbatim>\<open>main\<close> over \<^verbatim>\<open>files_to_process\<close>; it has no \<^verbatim>\<open>try\<close>, so an
  exception of a file's processing ends the run.\<close>

fun process_files ::
  "(string \<Rightarrow> json option) \<Rightarrow> (json \<Rightarrow> string) \<Rightarrow> (string \<Rightarrow> string) \<Rightarrow> string \<Rightarrow> bool \<Rightarrow> bool
     \<Rightarrow> string list \<Rightarrow> filesystem \<Rightarrow> string list \<Rightarrow> py_error + (string list \<times> filesystem)" where
  "process_files json_load json_dump path_suffix home dry_run paths [] fs modified_files =
     Inr (modified_files, fs)"
| "process_files json_load json_dump path_suffix home dry_run paths (file_path # rest) fs
       modified_files =
     (if path_suffix file_path = ''.json'' then
        (case sanitize_json_file json_load json_dump fs file_path dry_run of
           Inl e \<Rightarrow> Inl e
         | Inr (m, fs') \<Rightarrow>
             process_files json_load json_dump path_suffix home dry_run paths rest fs'
               (if m then modified_files @ [file_path] else modified_files))
      else if paths then
        (case sanitize_text_file home fs file_path dry_run of
           Inl e \<Rightarrow> Inl e
         | Inr (m, fs') \<Rightarrow>
             process_files json_load json_dump path_suffix home dry_run paths rest fs'
               (if m then modified_files @ [file_path] else modified_files))
      else process_files json_load json_dump path_suffix home dry_run paths rest fs
             modified_files)"

text \<open>
  Field paths. The walkers build \<^verbatim>\<open>current_path\<close> as \<^verbatim>\<open>f"{path}.{key}" if path else key\<close>
  for a dict entry (lines 115 and 164) and as \<^verbatim>\<open>f"{path}[{idx}]"\<close> for a list element
  (lines 142 and 173). \<open>field_paths\<close> follows the walk of \<^verbatim>\<open>scan_values\<close>, which visits
  every scalar, and returns for each scalar its position (the keys and indices that lead
  to it) and the path the walk has built when it reaches it.
\<close>

datatype step = Key string | Idx nat

function field_paths :: "json \<Rightarrow> string \<Rightarrow> step list \<Rightarrow> (step list \<times> string) list"
  and field_paths_dict :: "pydict \<Rightarrow> string \<Rightarrow> step list \<Rightarrow> (step list \<times> string) list"
  and field_paths_list :: "json list \<Rightarrow> nat \<Rightarrow> string \<Rightarrow> step list \<Rightarrow> (step list \<times> string) list"
where
  "field_paths data path pos =
     (case data of
        JDict d \<Rightarrow> field_paths_dict d path pos
      | JList l \<Rightarrow> field_paths_list l 0 path pos
      | _ \<Rightarrow> [(pos, path)])"
| "field_paths_dict [] path pos = []"
| "field_paths_dict ((key, v) # rest) path pos =
     field_paths v (if path \<noteq> [] then path @ ''.'' @ key else key) (pos @ [Key key])
     @ field_paths_dict rest path pos"
| "field_paths_list [] idx path pos = []"
| "field_paths_list (item # rest) idx path pos =
     field_paths item (path @ ''['' @ py_str_nat idx @ '']'') (pos @ [Idx idx])
     @ field_paths_list rest (Suc idx) path pos"
  by pat_completeness auto
termination
  by (relation "measure (\<lambda>x. case x of
        Inl (data, _, _) \<Rightarrow> 2 * size data + 1
      | Inr (Inl (d, _, _)) \<Rightarrow> 2 * size (JDict d)
      | Inr (Inr (l, _, _, _)) \<Rightarrow> 2 * size (JList l))") auto

section \<open>Definitions used in the statements and proofs\<close>

text \<open>What the loops of the key pass do to one list element and to one dict entry, and
  what each adds to \<^verbatim>\<open>total_changes\<close>.\<close>

definition list_item :: "json \<Rightarrow> json" where
  "list_item x = (case x of JDict d \<Rightarrow> JDict (fst (sanitize_dict d))
     | JList l \<Rightarrow> JList (fst (sanitize_list l)) | _ \<Rightarrow> x)"

definition list_item_changes :: "json \<Rightarrow> nat" where
  "list_item_changes x = (case x of JDict d \<Rightarrow> snd (sanitize_dict d)
     | JList l \<Rightarrow> snd (sanitize_list l) | _ \<Rightarrow> 0)"

definition dict_item :: "string \<Rightarrow> json \<Rightarrow> json" where
  "dict_item k v = (case v of JDict d \<Rightarrow> JDict (fst (sanitize_dict d))
     | JList l \<Rightarrow> JList (fst (sanitize_list l))
     | _ \<Rightarrow> if is_sensitive_key k then fst (sanitize_value v) else v)"

definition dict_item_changes :: "string \<Rightarrow> json \<Rightarrow> nat" where
  "dict_item_changes k v = (case v of JDict d \<Rightarrow> snd (sanitize_dict d)
     | JList l \<Rightarrow> snd (sanitize_list l)
     | _ \<Rightarrow> if is_sensitive_key k \<and> snd (sanitize_value v) then 1 else 0)"


text \<open>The shape of a tree: the keys of every dict in their order, the length and order
  of every list, and a leaf for every scalar.\<close>

datatype shape = SLeaf | SList "shape list" | SDict "(string \<times> shape) list"

fun shape_of :: "json \<Rightarrow> shape" where
  "shape_of (JList xs) = SList (map shape_of xs)"
| "shape_of (JDict kvs) = SDict (map (\<lambda>kv. (fst kv, shape_of (snd kv))) kvs)"
| "shape_of _ = SLeaf"

text \<open>What the value scan returns for one element or entry, and what it adds to the count.\<close>

definition scan_item :: "json \<Rightarrow> json" where
  "scan_item v = fst (scan_values v)"

definition scan_item_changes :: "json \<Rightarrow> nat" where
  "scan_item_changes v = snd (scan_values v)"

definition shape_example :: json where
  "shape_example = JDict [(''API_TOKEN'', JStr ''abc''),
     (''items'', JList [JStr ''redis://u:p@h'', JInt 1, JDict [(''token'', JStr ''x'')]])]"

text \<open>A key that cannot be mistaken for a piece of path syntax: not empty, and without
  \<^verbatim>\<open>.\<close> and \<^verbatim>\<open>[\<close>.\<close>

definition key_ok :: "string \<Rightarrow> bool" where
  "key_ok k = (k \<noteq> [] \<and> CHR ''.'' \<notin> set k \<and> CHR ''['' \<notin> set k)"

fun keys_plain :: "json \<Rightarrow> bool" where
  "keys_plain (JList xs) = list_all keys_plain xs"
| "keys_plain (JDict kvs) = list_all (\<lambda>kv. key_ok (fst kv) \<and> keys_plain (snd kv)) kvs"
| "keys_plain _ = True"

text \<open>The path of a position, built step by step as the walkers build it.\<close>

fun render :: "string \<Rightarrow> step list \<Rightarrow> string" where
  "render p [] = p"
| "render p (Key k # r) = render (if p \<noteq> [] then p @ ''.'' @ k else k) r"
| "render p (Idx i # r) = render (p @ ''['' @ py_str_nat i @ '']'') r"

text \<open>The piece of a path that one step adds behind a non-empty path.\<close>

fun seg :: "step \<Rightarrow> string" where
  "seg (Key k) = ''.'' @ k"
| "seg (Idx i) = ''['' @ py_str_nat i @ '']''"

fun step_ok :: "step \<Rightarrow> bool" where
  "step_ok (Key k) = key_ok k"
| "step_ok (Idx i) = True"

text \<open>Reading a decimal number back, the inverse of \<open>py_str_nat\<close>.\<close>

definition digit_val :: "char \<Rightarrow> nat" where
  "digit_val c = (case map_of (zip ''0123456789'' [0, 1, 2, 3, 4, 5, 6, 7, 8, 9]) c of
     Some d \<Rightarrow> d | None \<Rightarrow> 0)"

definition dec_val :: "string \<Rightarrow> nat" where
  "dec_val s = foldl (\<lambda>a c. 10 * a + digit_val c) 0 s"

definition plain_example :: json where
  "plain_example = JDict [(''a'', JDict [(''b'', JInt 1)]), (''c'', JList [JInt 2, JStr ''x''])]"

definition collision_example :: json where
  "collision_example = JDict [(''a.b'', JInt 1), (''a'', JDict [(''b'', JInt 2)])]"

definition is_delim :: "char \<Rightarrow> bool" where
  "is_delim c = (c = CHR ''.'' \<or> c = CHR ''['')"

text \<open>Positions: the value at a position, the positions of the scalars of a tree in the
  order of the walk, and whether the last step of a position is a sensitive key.\<close>

fun lookup :: "json \<Rightarrow> step list \<Rightarrow> json option" where
  "lookup v [] = Some v"
| "lookup (JDict kvs) (Key k # r) =
     (case map_of kvs k of Some v \<Rightarrow> lookup v r | None \<Rightarrow> None)"
| "lookup (JList xs) (Idx i # r) = (if i < length xs then lookup (xs ! i) r else None)"
| "lookup _ _ = None"

function positions :: "json \<Rightarrow> step list list"
  and positions_dict :: "pydict \<Rightarrow> step list list"
  and positions_list :: "json list \<Rightarrow> nat \<Rightarrow> step list list"
where
  "positions data =
     (case data of JDict d \<Rightarrow> positions_dict d | JList l \<Rightarrow> positions_list l 0 | _ \<Rightarrow> [[]])"
| "positions_dict [] = []"
| "positions_dict ((key, v) # rest) = map ((#) (Key key)) (positions v) @ positions_dict rest"
| "positions_list [] idx = []"
| "positions_list (item # rest) idx =
     map ((#) (Idx idx)) (positions item) @ positions_list rest (Suc idx)"
  by pat_completeness auto
termination
  by (relation "measure (\<lambda>x. case x of
        Inl data \<Rightarrow> 2 * size data + 1
      | Inr (Inl d) \<Rightarrow> 2 * size (JDict d)
      | Inr (Inr (l, _)) \<Rightarrow> 2 * size (JList l))") auto

definition under_sensitive_key :: "step list \<Rightarrow> bool" where
  "under_sensitive_key pos =
     (case rev pos of Key k # _ \<Rightarrow> is_sensitive_key k | _ \<Rightarrow> False)"

text \<open>What the value scan counts for the scalar at a position.\<close>

definition scan_count_at :: "json \<Rightarrow> step list \<Rightarrow> nat" where
  "scan_count_at T pos =
     (case lookup T pos of
        Some v \<Rightarrow> if is_scalar v then snd (scan_values v) else 0
      | None \<Rightarrow> 0)"

definition conn_example :: pydict where
  "conn_example = [(''db'', JDict [(''url'', JStr ''postgres://user:pw@host/db'')]),
                   (''DB_PASSWORD'', JStr ''postgres://user:pw@host/db'')]"

text \<open>A literal at the front of a string, as the matcher compares it (with or without
  \<^verbatim>\<open>re.IGNORECASE\<close>).\<close>

fun lit_prefix :: "bool \<Rightarrow> string \<Rightarrow> string \<Rightarrow> bool" where
  "lit_prefix ic [] s = True"
| "lit_prefix ic (a # l) [] = False"
| "lit_prefix ic (a # l) (c # s) = (atom_match ic (Lit a) c \<and> lit_prefix ic l s)"

text \<open>Where \<^verbatim>\<open>$\<close> matches: at the end, and before a line feed that ends the string.\<close>

definition at_eol :: "string \<Rightarrow> bool" where
  "at_eol s = (s = [] \<or> s = [CHR 0x0A])"

text \<open>
  The key rules in words. Two strings are equal ignoring case when they agree letter by
  letter after lowering the ASCII letters. A suffix rule holds of a name that ends with
  its word, ignoring case, and has no line feed before the word (\<^verbatim>\<open>.\<close> does not match
  one); an exact rule holds of a name equal to its word, ignoring case.
\<close>

definition ci_eq :: "string \<Rightarrow> string \<Rightarrow> bool" where
  "ci_eq a b = (map lower_char a = map lower_char b)"

definition SUFFIX_WORDS :: "string list" where
  "SUFFIX_WORDS = [''_TOKEN'', ''_API_KEY'', ''_APP_KEY'', ''_PASSWORD'', ''_SECRET'', ''_PAT'']"

definition EXACT_WORDS :: "string list" where
  "EXACT_WORDS = [''Authorization'', ''token'', ''api_key'', ''api-key'', ''apikey'']"

definition ends_with_ci :: "string \<Rightarrow> string \<Rightarrow> bool" where
  "ends_with_ci w k = (length w \<le> length k \<and> ci_eq (drop (length k - length w) k) w)"

definition suffix_rule :: "string \<Rightarrow> string \<Rightarrow> bool" where
  "suffix_rule w k = (ends_with_ci w k \<and> CHR 0x0A \<notin> set (take (length k - length w) k))"

definition key_rules :: "string \<Rightarrow> bool" where
  "key_rules k = (list_ex (\<lambda>w. suffix_rule w k) SUFFIX_WORDS \<or> list_ex (ci_eq k) EXACT_WORDS)"

text \<open>
  The two value-scan patterns, read off as functions. A pattern of the shape
  \<^verbatim>\<open>(group)[class]+\<close> matches at the front of \<open>s\<close> when the group can end in front of a
  character of the class; \<open>conn_rest\<close> and \<open>url_rest\<close> return what is left of \<open>s\<close> behind
  the group of the first such match, in the order the matcher tries them. The match
  function of a pattern returns the text of the group and what is left behind the whole
  match.
\<close>

definition first_result :: "'a list \<Rightarrow> 'a option" where
  "first_result xs = (case xs of [] \<Rightarrow> None | x # _ \<Rightarrow> Some x)"





















section \<open>The loops as maps\<close>

lemma sanitize_list_loop_eq:
  "sanitize_list_loop xs result tot =
     (result @ map list_item xs, tot + sum_list (map list_item_changes xs))"
  by (induction xs arbitrary: result tot)
     (auto simp: list_item_def list_item_changes_def split: json.splits prod.splits)

lemma sanitize_list_eq:
  "sanitize_list xs = (map list_item xs, sum_list (map list_item_changes xs))"
  by (simp add: sanitize_list_loop_eq)

declare sanitize_list.simps [simp del]

lemma dict_set_fresh: "k \<notin> fst ` set r \<Longrightarrow> dict_set r k v = r @ [(k, v)]"
  by (induction r) auto

lemma sanitize_dict_loop_fold:
  "sanitize_dict_loop kvs result tot =
     (fold (\<lambda>(k, v) r. dict_set r k (dict_item k v)) kvs result,
      tot + sum_list (map (\<lambda>(k, v). dict_item_changes k v) kvs))"
  by (induction kvs arbitrary: result tot)
     (auto simp: dict_item_def dict_item_changes_def split: json.splits prod.splits)

lemma fold_dict_set_distinct:
  "distinct (map fst kvs) \<Longrightarrow> fst ` set r \<inter> fst ` set kvs = {} \<Longrightarrow>
   fold (\<lambda>(k, v) r. dict_set r k (f k v)) kvs r = r @ map (\<lambda>(k, v). (k, f k v)) kvs"
proof (induction kvs arbitrary: r)
  case Nil
  then show ?case by simp
next
  case (Cons kv kvs)
  obtain k v where kv: "kv = (k, v)" by (cases kv)
  have fresh: "k \<notin> fst ` set r" using Cons.prems(2) kv by auto
  have "fst ` set (r @ [(k, f k v)]) \<inter> fst ` set kvs = {}"
    using Cons.prems kv by auto
  with Cons.IH [of "r @ [(k, f k v)]"] Cons.prems(1) kv fresh show ?case
    by (simp add: dict_set_fresh)
qed

lemma sanitize_dict_eq:
  "distinct (map fst kvs) \<Longrightarrow>
   sanitize_dict kvs = (map (\<lambda>(k, v). (k, dict_item k v)) kvs,
                        sum_list (map (\<lambda>(k, v). dict_item_changes k v) kvs))"
  by (simp add: sanitize_dict_loop_fold fold_dict_set_distinct)

declare sanitize_dict.simps [simp del]


section \<open>The value redactor\<close>

lemma py_strip_empty_iff: "py_strip s = [] \<longleftrightarrow> list_all is_space s"
proof -
  have "dropWhile is_space (rev (dropWhile is_space s)) = [] \<longleftrightarrow> list_all is_space s"
  proof
    assume "dropWhile is_space (rev (dropWhile is_space s)) = []"
    then have a: "\<forall>x \<in> set (dropWhile is_space s). is_space x"
      by (simp add: dropWhile_eq_Nil_conv)
    have "dropWhile is_space s = []"
    proof (cases "dropWhile is_space s")
      case Nil then show ?thesis .
    next
      case (Cons c cs)
      then have "\<not> is_space c" using hd_dropWhile [of is_space s] by simp
      with a Cons show ?thesis by simp
    qed
    then show "list_all is_space s" by (metis dropWhile_eq_Nil_conv list_all_iff)
  next
    assume "list_all is_space s"
    then show "dropWhile is_space (rev (dropWhile is_space s)) = []"
      by (auto simp: dropWhile_eq_Nil_conv list_all_iff dest: set_dropWhileD)
  qed
  then show ?thesis by (simp add: py_strip_def)
qed

lemma spaces_not_placeholder:
  "list_all is_space s \<Longrightarrow> \<not> is_already_placeholder (JStr s) \<and> \<not> prefix ''Bearer '' s"
  by (auto simp: PLACEHOLDER_def is_space_def prefix_def)


text \<open>
  Claim C4, as amended. For a value under a sensitive key: a string that is not already
  a placeholder, does not start with \<^verbatim>\<open>Bearer \<close> and has at least one character that is
  not whitespace becomes the bare placeholder, with \<open>changed = True\<close>; a string of
  whitespace only (the empty string among them) and a scalar that is not a string come
  back unchanged, with \<open>changed = False\<close>.
\<close>

theorem sanitize_value_cases:
  "(\<not> is_already_placeholder (JStr s) \<and> \<not> prefix ''Bearer '' s \<and> \<not> list_all is_space s
      \<longrightarrow> sanitize_value (JStr s) = (JStr PLACEHOLDER, True))
   \<and> (list_all is_space s \<longrightarrow> sanitize_value (JStr s) = (JStr s, False))
   \<and> ((\<forall>s'. v \<noteq> JStr s') \<longrightarrow> sanitize_value v = (v, False))"
proof (intro conjI impI)
  assume "\<not> is_already_placeholder (JStr s) \<and> \<not> prefix ''Bearer '' s \<and> \<not> list_all is_space s"
  then show "sanitize_value (JStr s) = (JStr PLACEHOLDER, True)"
    by (simp add: sanitize_value_def py_strip_empty_iff)
next
  assume sp: "list_all is_space s"
  from spaces_not_placeholder [OF sp] sp show "sanitize_value (JStr s) = (JStr s, False)"
    by (simp add: sanitize_value_def py_strip_empty_iff)
next
  assume "\<forall>s'. v \<noteq> JStr s'"
  then show "sanitize_value v = (v, False)"
    by (cases v) (simp_all add: sanitize_value_def)
qed

theorem sanitize_value_cases_witness:
  "sanitize_value (JStr ''glpat-xxxx'') = (JStr PLACEHOLDER, True)
   \<and> sanitize_value (JStr '''') = (JStr '''', False)
   \<and> sanitize_value (JStr ''  '') = (JStr ''  '', False)
   \<and> sanitize_value (JInt 5) = (JInt 5, False)"
proof -
  have a: "\<not> is_already_placeholder (JStr ''glpat-xxxx'') \<and> \<not> prefix ''Bearer '' ''glpat-xxxx''
      \<and> \<not> list_all is_space ''glpat-xxxx''"
    by (simp add: PLACEHOLDER_def is_space_def)
  have b: "list_all is_space ''''" by simp
  have c: "list_all is_space ''  ''" by (simp add: is_space_def)
  have d: "\<forall>s'. JInt 5 \<noteq> JStr s'" by simp
  from sanitize_value_cases [of "''glpat-xxxx''" "JInt 5"] a d
    sanitize_value_cases [of "''''" "JInt 5"] b
    sanitize_value_cases [of "''  ''" "JInt 5"] c
  show ?thesis by blast
qed


text \<open>
  Claim C4 as stated fails: the string of one space is not empty, is no placeholder and
  does not start with \<^verbatim>\<open>Bearer \<close>, yet \<^verbatim>\<open>value.strip()\<close> is empty and the value comes back
  unchanged.
\<close>

theorem sanitize_value_blank_counterexample:
  "'' '' \<noteq> [] \<and> \<not> is_already_placeholder (JStr '' '') \<and> \<not> prefix ''Bearer '' '' ''
   \<and> sanitize_value (JStr '' '') = (JStr '' '', False)
   \<and> sanitize_value (JStr '' '') \<noteq> (JStr PLACEHOLDER, True)"
  by (simp add: sanitize_value_def PLACEHOLDER_def py_strip_def is_space_def)


section \<open>Scalars inside lists\<close>

lemma list_item_scalar: "is_scalar x \<Longrightarrow> list_item x = x \<and> list_item_changes x = 0"
  by (cases x) (simp_all add: list_item_def list_item_changes_def)

lemma sum_list_filter_zero:
  "(\<And>x. P x \<Longrightarrow> f x = (0::nat)) \<Longrightarrow>
   sum_list (map f xs) = sum_list (map f (filter (\<lambda>x. \<not> P x) xs))"
  by (induction xs) auto


text \<open>
  Claim C10. The key pass returns every scalar element of a list as it is: the result
  has the length of the input and the same scalar at every index that holds one; the
  count of a list is the count of its elements that are not scalars; and a list under
  any key \<open>k\<close>, sensitive or not, is handed to \<^verbatim>\<open>sanitize_list\<close> and nothing else.
\<close>

theorem key_pass_skips_list_scalars:
  "length (fst (sanitize_list xs)) = length xs
   \<and> (\<forall>i < length xs. is_scalar (xs ! i) \<longrightarrow> fst (sanitize_list xs) ! i = xs ! i)
   \<and> snd (sanitize_list xs) = snd (sanitize_list (filter (\<lambda>x. \<not> is_scalar x) xs))
   \<and> sanitize_dict [(k, JList xs)] = ([(k, JList (fst (sanitize_list xs)))], snd (sanitize_list xs))"
proof (intro conjI allI impI)
  show "length (fst (sanitize_list xs)) = length xs" by (simp add: sanitize_list_eq)
next
  fix i assume "i < length xs" "is_scalar (xs ! i)"
  then show "fst (sanitize_list xs) ! i = xs ! i"
    by (simp add: sanitize_list_eq list_item_scalar)
next
  show "snd (sanitize_list xs) = snd (sanitize_list (filter (\<lambda>x. \<not> is_scalar x) xs))"
    using sum_list_filter_zero [of is_scalar list_item_changes xs]
    by (simp add: sanitize_list_eq list_item_scalar)
next
  show "sanitize_dict [(k, JList xs)] = ([(k, JList (fst (sanitize_list xs)))], snd (sanitize_list xs))"
    by (simp add: sanitize_dict_eq dict_item_def dict_item_changes_def sanitize_list_eq)
qed

theorem key_pass_skips_list_scalars_witness:
  "is_sensitive_key ''MY_TOKEN''
   \<and> fst (sanitize_list [JStr ''secret'']) ! 0 = JStr ''secret''
   \<and> snd (sanitize_list [JStr ''secret'']) = 0
   \<and> sanitize_dict [(''MY_TOKEN'', JList [JStr ''secret''])]
       = ([(''MY_TOKEN'', JList [JStr ''secret''])], 0)"
proof -
  have s: "is_sensitive_key ''MY_TOKEN''" by code_simp
  have z: "snd (sanitize_list [JStr ''secret'']) = 0 \<and> length (fst (sanitize_list [JStr ''secret''])) = 1"
    using key_pass_skips_list_scalars [of "[JStr ''secret'']" "''MY_TOKEN''"]
    by (simp add: sanitize_list_eq)
  have e: "fst (sanitize_list [JStr ''secret'']) ! 0 = JStr ''secret''"
    using key_pass_skips_list_scalars [of "[JStr ''secret'']" "''MY_TOKEN''"] by simp
  with z have "fst (sanitize_list [JStr ''secret'']) = [JStr ''secret'']"
    by (cases "fst (sanitize_list [JStr ''secret''])") auto
  with key_pass_skips_list_scalars [of "[JStr ''secret'']" "''MY_TOKEN''"] s z e
  show ?thesis by simp
qed


section \<open>The scenarios of the specification\<close>

text \<open>
  Claim C2. The end-to-end scenario: the engine turns the input tree into the expected
  tree with a total change count of 2, and a second run on that result counts 0.
\<close>

theorem end_to_end_scenario:
  "engine (JDict [(''GITHUB_TOKEN'', JStr ''ghp_abc123''),
                  (''db'', JDict [(''url'', JStr ''mongodb://u:p@host/d'')]),
                  (''note'', JStr ''hello'')])
     = Inr (JDict [(''GITHUB_TOKEN'', JStr ''PLACEHOLDER''),
                   (''db'', JDict [(''url'', JStr ''mongodb://PLACEHOLDER'')]),
                   (''note'', JStr ''hello'')], 2)
   \<and> engine (JDict [(''GITHUB_TOKEN'', JStr ''PLACEHOLDER''),
                    (''db'', JDict [(''url'', JStr ''mongodb://PLACEHOLDER'')]),
                    (''note'', JStr ''hello'')])
     = Inr (JDict [(''GITHUB_TOKEN'', JStr ''PLACEHOLDER''),
                   (''db'', JDict [(''url'', JStr ''mongodb://PLACEHOLDER'')]),
                   (''note'', JStr ''hello'')], 0)"
  by code_simp

text \<open>
  Claim C8. With the home directory \<^verbatim>\<open>/home/alice\<close> the text of the scenario becomes
  \<^verbatim>\<open>cwd=~/proj, shared=~/x\<close>; and for every home directory and every text the returned
  count is positive exactly when the returned text differs from the input.
\<close>

theorem path_redaction:
  "fst (sanitize_paths ''/home/alice'' ''cwd=/home/alice/proj, shared=/Users/bob/x'')
     = ''cwd=~/proj, shared=~/x''
   \<and> (0 < snd (sanitize_paths home text) \<longleftrightarrow> fst (sanitize_paths home text) \<noteq> text)"
proof
  show "fst (sanitize_paths ''/home/alice'' ''cwd=/home/alice/proj, shared=/Users/bob/x'')
     = ''cwd=~/proj, shared=~/x''"
    by code_simp
next
  show "0 < snd (sanitize_paths home text) \<longleftrightarrow> fst (sanitize_paths home text) \<noteq> text"
    by (simp add: sanitize_paths_def Let_def)
qed

theorem path_redaction_witness:
  "0 < snd (sanitize_paths ''/home/alice'' ''cwd=/home/alice/proj, shared=/Users/bob/x'')
   \<and> snd (sanitize_paths ''/home/alice'' ''nothing here'') = 0"
proof -
  have a: "fst (sanitize_paths ''/home/alice'' ''nothing here'') = ''nothing here''"
    by code_simp
  from path_redaction [of "''/home/alice''" "''cwd=/home/alice/proj, shared=/Users/bob/x''"]
    path_redaction [of "''/home/alice''" "''nothing here''"] a
  show ?thesis by simp
qed

section \<open>Failures of a single file\<close>

text \<open>
  Claim C9 does not hold of the code. \<^verbatim>\<open>sanitize_json_file\<close> catches
  \<^verbatim>\<open>json.JSONDecodeError\<close> only: a file that exists and cannot be read makes \<^verbatim>\<open>open\<close>
  raise, the exception leaves the function and ends the loop of \<^verbatim>\<open>main\<close> before the next
  file. \<^verbatim>\<open>sanitize_text_file\<close> catches every exception of the read and returns \<open>False\<close>
  for the same file.
\<close>

theorem unreadable_json_file_escapes:
  "sanitize_json_file json_load json_dump
       [''a.json'' \<mapsto> \<lparr>content = ''{}'', readable = False, writable = True\<rparr>] ''a.json'' dry_run
     = Inl PermissionError
   \<and> process_files json_load json_dump (\<lambda>p. ''.json'') home dry_run paths [''a.json'', ''b.json'']
       [''a.json'' \<mapsto> \<lparr>content = ''{}'', readable = False, writable = True\<rparr>] []
     = Inl PermissionError
   \<and> sanitize_text_file home
       [''a.txt'' \<mapsto> \<lparr>content = ''x'', readable = False, writable = True\<rparr>] ''a.txt'' dry_run
     = Inr (False, [''a.txt'' \<mapsto> \<lparr>content = ''x'', readable = False, writable = True\<rparr>])"
  by (simp add: sanitize_json_file_def sanitize_text_file_def)

section \<open>Shape preservation\<close>

lemma scan_list_loop_eq:
  "scan_list_loop xs result tot =
     (result @ map scan_item xs, tot + sum_list (map scan_item_changes xs))"
  by (induction xs arbitrary: result tot)
     (auto simp: scan_item_def scan_item_changes_def split: prod.splits simp del: scan_values.simps)

lemma scan_dict_loop_fold:
  "scan_dict_loop kvs result tot =
     (fold (\<lambda>(k, v) r. dict_set r k (scan_item v)) kvs result,
      tot + sum_list (map (\<lambda>(k, v). scan_item_changes v) kvs))"
  by (induction kvs arbitrary: result tot)
     (auto simp: scan_item_def scan_item_changes_def split: prod.splits simp del: scan_values.simps)

lemma scan_values_JList:
  "scan_values (JList xs) = (JList (map scan_item xs), sum_list (map scan_item_changes xs))"
  by (simp add: scan_list_loop_eq)

lemma scan_values_JDict:
  "distinct (map fst kvs) \<Longrightarrow>
   scan_values (JDict kvs) =
     (JDict (map (\<lambda>(k, v). (k, scan_item v)) kvs),
      sum_list (map (\<lambda>(k, v). scan_item_changes v) kvs))"
  using fold_dict_set_distinct [of kvs "[]" "\<lambda>k v. scan_item v"]
  by (simp add: scan_dict_loop_fold)

lemma scan_values_JStr:
  "scan_values (JStr s) =
     (if is_already_placeholder (JStr s) then (JStr s, 0)
      else (JStr (fst (scan_patterns VALUE_SCAN_PATTERNS s 0)),
            snd (scan_patterns VALUE_SCAN_PATTERNS s 0)))"
  by (simp split: prod.splits)

lemma scan_values_other:
  "scan_values JNull = (JNull, 0)" "scan_values (JBool b) = (JBool b, 0)"
  "scan_values (JInt i) = (JInt i, 0)" "scan_values (JFloat m e) = (JFloat m e, 0)"
  by simp_all

declare scan_values.simps [simp del]

lemma list_item_JList: "list_item (JList xs) = JList (map list_item xs)"
  by (simp add: list_item_def sanitize_list_eq)

lemma list_item_JDict:
  "distinct (map fst kvs) \<Longrightarrow>
   list_item (JDict kvs) = JDict (map (\<lambda>(k, v). (k, dict_item k v)) kvs)"
  by (simp add: list_item_def sanitize_dict_eq)

lemma dict_item_container: "\<not> is_scalar v \<Longrightarrow> dict_item k v = list_item v"
  by (cases v) (simp_all add: dict_item_def list_item_def)

lemma sanitize_value_scalar: "is_scalar v \<Longrightarrow> is_scalar (fst (sanitize_value v))"
  by (cases v) (simp_all add: sanitize_value_def)

lemma dict_item_scalar: "is_scalar v \<Longrightarrow> is_scalar (dict_item k v)"
  by (cases v) (simp_all add: dict_item_def sanitize_value_scalar)

lemma shape_of_scalar: "is_scalar v \<Longrightarrow> shape_of v = SLeaf"
  by (cases v) simp_all

lemma wf_json_scalar: "is_scalar v \<Longrightarrow> wf_json v"
  by (cases v) simp_all

lemma key_pass_shape:
  "wf_json v \<Longrightarrow> shape_of (list_item v) = shape_of v \<and> wf_json (list_item v)"
proof (induction v)
  case (JList xs)
  then have "\<forall>x \<in> set xs. shape_of (list_item x) = shape_of x \<and> wf_json (list_item x)"
    by (auto simp: list_all_iff)
  then show ?case by (simp add: list_item_JList list_all_iff)
next
  case (JDict kvs)
  then have d: "distinct (map fst kvs)" by simp
  have "\<forall>kv \<in> set kvs. shape_of (dict_item (fst kv) (snd kv)) = shape_of (snd kv)
          \<and> wf_json (dict_item (fst kv) (snd kv))"
  proof
    fix kv assume kv: "kv \<in> set kvs"
    show "shape_of (dict_item (fst kv) (snd kv)) = shape_of (snd kv)
          \<and> wf_json (dict_item (fst kv) (snd kv))"
    proof (cases "is_scalar (snd kv)")
      case True
      then show ?thesis
        by (simp add: shape_of_scalar dict_item_scalar wf_json_scalar)
    next
      case False
      have "snd kv \<in> Basic_BNFs.snds kv" by (cases kv) simp
      moreover have "wf_json (snd kv)" using JDict.prems kv by (auto simp: list_all_iff)
      ultimately show ?thesis using JDict.IH kv False by (simp add: dict_item_container)
    qed
  qed
  with d show ?case
    by (simp add: list_item_JDict list_all_iff case_prod_beta comp_def)
qed (simp_all add: list_item_def)

lemma scan_item_JList: "scan_item (JList xs) = JList (map scan_item xs)"
  by (simp add: scan_item_def scan_values_JList)

lemma scan_item_JDict:
  "distinct (map fst kvs) \<Longrightarrow> scan_item (JDict kvs) = JDict (map (\<lambda>(k, v). (k, scan_item v)) kvs)"
  by (simp add: scan_item_def scan_values_JDict)

lemma scan_pass_shape:
  "wf_json v \<Longrightarrow> shape_of (scan_item v) = shape_of v \<and> wf_json (scan_item v)"
proof (induction v)
  case (JList xs)
  then have "\<forall>x \<in> set xs. shape_of (scan_item x) = shape_of x \<and> wf_json (scan_item x)"
    by (auto simp: list_all_iff)
  then show ?case by (simp add: scan_item_JList list_all_iff)
next
  case (JDict kvs)
  then have d: "distinct (map fst kvs)" by simp
  have "\<forall>kv \<in> set kvs. shape_of (scan_item (snd kv)) = shape_of (snd kv)
          \<and> wf_json (scan_item (snd kv))"
  proof
    fix kv assume kv: "kv \<in> set kvs"
    have "snd kv \<in> Basic_BNFs.snds kv" by (cases kv) simp
    moreover have "wf_json (snd kv)" using JDict.prems kv by (auto simp: list_all_iff)
    ultimately show "shape_of (scan_item (snd kv)) = shape_of (snd kv)
          \<and> wf_json (scan_item (snd kv))" using JDict.IH kv by simp
  qed
  with d show ?case
    by (simp add: scan_item_JDict list_all_iff case_prod_beta comp_def)
qed (simp_all add: scan_item_def scan_values_JStr scan_values_other)

lemma engine_JDict:
  "engine (JDict d) = Inr (scan_item (list_item (JDict d)),
      snd (sanitize_dict d) + scan_item_changes (list_item (JDict d)))"
  by (simp add: engine_def run_passes_def list_item_def scan_item_def scan_item_changes_def
      split: prod.splits)

text \<open>
  Claim C3. For a tree \<open>T\<close> whose dicts have distinct keys (every Python dict), each pass
  returns a tree of the shape of \<open>T\<close>: \<^verbatim>\<open>scan_values\<close> on any tree, \<^verbatim>\<open>sanitize_dict\<close> on a
  dict, \<^verbatim>\<open>sanitize_list\<close> on a list, and so does the engine, which runs one after the
  other. Equal shapes have the same keys in the same order and lists of the same length,
  with dicts, lists and scalars at the same places: only scalars can differ.
\<close>

theorem shape_preserved:
  assumes "wf_json T"
  shows "shape_of (fst (scan_values T)) = shape_of T
    \<and> (\<forall>d. T = JDict d \<longrightarrow>
          shape_of (JDict (fst (sanitize_dict d))) = shape_of T
          \<and> (\<exists>T' n. engine T = Inr (T', n) \<and> shape_of T' = shape_of T))
    \<and> (\<forall>l. T = JList l \<longrightarrow> shape_of (JList (fst (sanitize_list l))) = shape_of T)"
proof (intro conjI allI impI)
  show "shape_of (fst (scan_values T)) = shape_of T"
    using scan_pass_shape [OF assms] by (simp add: scan_item_def)
next
  fix d assume T: "T = JDict d"
  from key_pass_shape [OF assms] T
  show "shape_of (JDict (fst (sanitize_dict d))) = shape_of T" by (simp add: list_item_def)
next
  fix d assume T: "T = JDict d"
  from key_pass_shape [OF assms] have k: "shape_of (list_item T) = shape_of T" "wf_json (list_item T)"
    by simp_all
  from scan_pass_shape [OF k(2)] k(1) have "shape_of (scan_item (list_item T)) = shape_of T" by simp
  then show "\<exists>T' n. engine T = Inr (T', n) \<and> shape_of T' = shape_of T"
    using T by (simp add: engine_JDict)
next
  fix l assume T: "T = JList l"
  from key_pass_shape [OF assms] T
  show "shape_of (JList (fst (sanitize_list l))) = shape_of T" by (simp add: list_item_def)
qed

theorem shape_preserved_witness:
  "wf_json shape_example
   \<and> shape_of (fst (scan_values shape_example)) = shape_of shape_example
   \<and> shape_of (JDict (fst (sanitize_dict [(''API_TOKEN'', JStr ''abc''),
     (''items'', JList [JStr ''redis://u:p@h'', JInt 1, JDict [(''token'', JStr ''x'')]])])))
       = shape_of shape_example"
proof -
  have w: "wf_json shape_example" by (simp add: shape_example_def)
  from shape_preserved [OF w] w show ?thesis by (simp add: shape_example_def)
qed

section \<open>Field paths\<close>

declare py_str_nat.simps [simp del]

lemma digit_cases: "d < 10 \<Longrightarrow>
  (d::nat) = 0 \<or> d = 1 \<or> d = 2 \<or> d = 3 \<or> d = 4 \<or> d = 5 \<or> d = 6 \<or> d = 7 \<or> d = 8 \<or> d = 9"
  by arith

lemma digit_val_digit_char: "d < 10 \<Longrightarrow> digit_val (digit_char d) = d"
  using digit_cases [of d] by (auto simp: digit_val_def digit_char_def)

lemma digit_char_in: "d < 10 \<Longrightarrow> digit_char d \<in> set ''0123456789''"
  using digit_cases [of d] by (auto simp: digit_char_def)

lemma dec_val_py_str_nat: "dec_val (py_str_nat n) = n"
proof (induction n rule: py_str_nat.induct)
  case (1 n)
  show ?case
  proof (cases "n < 10")
    case True
    then show ?thesis
      by (simp add: py_str_nat.simps [of n] dec_val_def digit_val_digit_char)
  next
    case False
    with 1 have "dec_val (py_str_nat (n div 10)) = n div 10" by simp
    with False show ?thesis
      by (simp add: py_str_nat.simps [of n] dec_val_def digit_val_digit_char)
  qed
qed

lemma py_str_nat_inj: "py_str_nat m = py_str_nat n \<Longrightarrow> m = n"
  by (metis dec_val_py_str_nat)

lemma py_str_nat_digits: "set (py_str_nat n) \<subseteq> set ''0123456789''"
proof (induction n rule: py_str_nat.induct)
  case (1 n)
  show ?case
  proof (cases "n < 10")
    case True
    then show ?thesis using digit_char_in [of n] by (simp add: py_str_nat.simps [of n])
  next
    case False
    with 1 have "set (py_str_nat (n div 10)) \<subseteq> set ''0123456789''" by simp
    moreover have "digit_char (n mod 10) \<in> set ''0123456789''"
    proof (rule digit_char_in)
      show "n mod 10 < 10" by simp
    qed
    ultimately show ?thesis using False by (simp add: py_str_nat.simps [of n])
  qed
qed

lemma py_str_nat_no_bracket: "CHR '']'' \<notin> set (py_str_nat n)"
  using py_str_nat_digits [of n] by auto

lemma takeWhile_stop: "r = [] \<or> \<not> P (hd r) \<Longrightarrow> takeWhile P r = []"
  by (cases r) auto

lemma takeWhile_append_stop:
  "\<forall>c \<in> set a. P c \<Longrightarrow> r = [] \<or> \<not> P (hd r) \<Longrightarrow> takeWhile P (a @ r) = a"
  by (simp add: takeWhile_append2 takeWhile_stop)

lemma split_unique:
  assumes "\<forall>c \<in> set a. P c" "\<forall>c \<in> set b. P c"
    and "r1 = [] \<or> \<not> P (hd r1)" "r2 = [] \<or> \<not> P (hd r2)"
    and "a @ r1 = b @ r2"
  shows "a = b \<and> r1 = r2"
proof -
  have 1: "takeWhile P (a @ r1) = a" using assms(1,3) by (rule takeWhile_append_stop)
  have 2: "takeWhile P (b @ r2) = b" using assms(2,4) by (rule takeWhile_append_stop)
  from 1 2 assms(5) have "a = b" by metis
  with assms(5) show ?thesis by simp
qed

lemma seg_start: "seg x \<noteq> [] \<and> is_delim (hd (seg x))"
  by (cases x) (simp_all add: is_delim_def)

lemma segs_start: "concat (map seg q) = [] \<or> is_delim (hd (concat (map seg q)))"
proof (cases q)
  case Nil
  then show ?thesis by simp
next
  case (Cons x r)
  with seg_start [of x] show ?thesis by simp
qed

lemma segs_inj:
  "list_all step_ok q1 \<Longrightarrow> list_all step_ok q2 \<Longrightarrow>
   concat (map seg q1) = concat (map seg q2) \<Longrightarrow> q1 = q2"
proof (induction q1 arbitrary: q2)
  case Nil
  show ?case
  proof (cases q2)
    case Nil
    then show ?thesis by simp
  next
    case (Cons x2 r2)
    with Nil.prems(3) seg_start [of x2] show ?thesis by simp
  qed
next
  case (Cons x1 r1)
  show ?case
  proof (cases q2)
    case Nil
    with Cons.prems(3) seg_start [of x1] show ?thesis by simp
  next
    case (Cons x2 r2)
    let ?R1 = "concat (map seg r1)" and ?R2 = "concat (map seg r2)"
    have eq: "seg x1 @ ?R1 = seg x2 @ ?R2" using Cons.prems(3) Cons by simp
    have ok: "list_all step_ok r1" "list_all step_ok r2" "step_ok x1" "step_ok x2"
      using Cons.prems(1,2) Cons by simp_all
    have "x1 = x2 \<and> ?R1 = ?R2"
    proof (cases x1)
      case (Key k1)
      show ?thesis
      proof (cases x2)
        case (Key k2)
        have "k1 @ ?R1 = k2 @ ?R2" using eq \<open>x1 = Key k1\<close> Key by simp
        moreover have "\<forall>c \<in> set k1. \<not> is_delim c" "\<forall>c \<in> set k2. \<not> is_delim c"
          using ok(3,4) \<open>x1 = Key k1\<close> Key by (auto simp: key_ok_def is_delim_def)
        moreover have "?R1 = [] \<or> \<not> \<not> is_delim (hd ?R1)" "?R2 = [] \<or> \<not> \<not> is_delim (hd ?R2)"
          using segs_start [of r1] segs_start [of r2] by blast+
        ultimately have "k1 = k2 \<and> ?R1 = ?R2"
          by (intro split_unique [where P = "\<lambda>c. \<not> is_delim c"])
        then show ?thesis using \<open>x1 = Key k1\<close> Key by simp
      next
        case (Idx i2)
        with eq \<open>x1 = Key k1\<close> show ?thesis by simp
      qed
    next
      case (Idx i1)
      show ?thesis
      proof (cases x2)
        case (Key k2)
        with eq Idx show ?thesis by simp
      next
        case (Idx i2)
        have "py_str_nat i1 @ ('']'' @ ?R1) = py_str_nat i2 @ ('']'' @ ?R2)"
          using eq \<open>x1 = Idx i1\<close> Idx by simp
        moreover have "\<forall>c \<in> set (py_str_nat i1). c \<noteq> CHR '']''" "\<forall>c \<in> set (py_str_nat i2). c \<noteq> CHR '']''"
          using py_str_nat_no_bracket by blast+
        moreover have "'']'' @ ?R1 = [] \<or> \<not> hd ('']'' @ ?R1) \<noteq> CHR '']''"
          "'']'' @ ?R2 = [] \<or> \<not> hd ('']'' @ ?R2) \<noteq> CHR '']''" by simp_all
        ultimately have "py_str_nat i1 = py_str_nat i2 \<and> '']'' @ ?R1 = '']'' @ ?R2"
          by (intro split_unique [where P = "\<lambda>c. c \<noteq> CHR '']''"])
        then show ?thesis using \<open>x1 = Idx i1\<close> Idx by (simp add: py_str_nat_inj)
      qed
    qed
    with Cons.IH [of r2] ok Cons show ?thesis by simp
  qed
qed

lemma render_nonempty: "p \<noteq> [] \<Longrightarrow> render p q = p @ concat (map seg q)"
proof (induction q arbitrary: p)
  case Nil
  then show ?case by simp
next
  case (Cons x q)
  show ?case
  proof (cases x)
    case (Key k)
    with Cons.IH [of "p @ ''.'' @ k"] Cons.prems show ?thesis by simp
  next
    case (Idx i)
    with Cons.IH [of "p @ ''['' @ py_str_nat i @ '']''"] show ?thesis by simp
  qed
qed

lemma render_root:
  "render [] [] = []"
  "key_ok k \<Longrightarrow> render [] (Key k # r) = k @ concat (map seg r)"
  "render [] (Idx i # r) = ''['' @ py_str_nat i @ '']'' @ concat (map seg r)"
  by (simp_all add: render_nonempty key_ok_def)

lemma render_inj:
  assumes "list_all step_ok q1" "list_all step_ok q2" "render [] q1 = render [] q2"
  shows "q1 = q2"
proof (cases q1)
  case Nil
  show ?thesis
  proof (cases q2)
    case Nil
    with \<open>q1 = []\<close> show ?thesis by simp
  next
    case (Cons x2 r2)
    with assms Nil show ?thesis
      by (cases x2) (auto simp: render_root key_ok_def simp del: render.simps)
  qed
next
  case (Cons x1 r1)
  note c1 = Cons
  show ?thesis
  proof (cases q2)
    case Nil
    with assms c1 show ?thesis
      by (cases x1) (auto simp: render_root key_ok_def simp del: render.simps)
  next
    case (Cons x2 r2)
    let ?R1 = "concat (map seg r1)" and ?R2 = "concat (map seg r2)"
    have ok: "list_all step_ok r1" "list_all step_ok r2" "step_ok x1" "step_ok x2"
      using assms(1,2) c1 Cons by simp_all
    have "x1 = x2 \<and> ?R1 = ?R2"
    proof (cases x1)
      case (Key k1)
      show ?thesis
      proof (cases x2)
        case (Key k2)
        have "k1 @ ?R1 = k2 @ ?R2"
          using assms(3) c1 Cons \<open>x1 = Key k1\<close> Key ok by (simp add: render_root del: render.simps)
        moreover have "\<forall>c \<in> set k1. \<not> is_delim c" "\<forall>c \<in> set k2. \<not> is_delim c"
          using ok(3,4) \<open>x1 = Key k1\<close> Key by (auto simp: key_ok_def is_delim_def)
        moreover have "?R1 = [] \<or> \<not> \<not> is_delim (hd ?R1)" "?R2 = [] \<or> \<not> \<not> is_delim (hd ?R2)"
          using segs_start [of r1] segs_start [of r2] by blast+
        ultimately have "k1 = k2 \<and> ?R1 = ?R2"
          by (intro split_unique [where P = "\<lambda>c. \<not> is_delim c"])
        then show ?thesis using \<open>x1 = Key k1\<close> Key by simp
      next
        case (Idx i2)
        have "k1 @ ?R1 = ''['' @ py_str_nat i2 @ '']'' @ ?R2"
          using assms(3) c1 Cons \<open>x1 = Key k1\<close> Idx ok by (simp add: render_root del: render.simps)
        moreover have "k1 \<noteq> [] \<and> hd k1 \<noteq> CHR ''[''"
          using ok(3) \<open>x1 = Key k1\<close> by (cases k1) (auto simp: key_ok_def)
        ultimately show ?thesis by (cases k1) auto
      qed
    next
      case (Idx i1)
      show ?thesis
      proof (cases x2)
        case (Key k2)
        have "''['' @ py_str_nat i1 @ '']'' @ ?R1 = k2 @ ?R2"
          using assms(3) c1 Cons \<open>x1 = Idx i1\<close> Key ok by (simp add: render_root del: render.simps)
        moreover have "k2 \<noteq> [] \<and> hd k2 \<noteq> CHR ''[''"
          using ok(4) Key by (cases k2) (auto simp: key_ok_def)
        ultimately show ?thesis by (cases k2) auto
      next
        case (Idx i2)
        have "py_str_nat i1 @ ('']'' @ ?R1) = py_str_nat i2 @ ('']'' @ ?R2)"
          using assms(3) c1 Cons \<open>x1 = Idx i1\<close> Idx by (simp add: render_root del: render.simps)
        moreover have "\<forall>c \<in> set (py_str_nat i1). c \<noteq> CHR '']''" "\<forall>c \<in> set (py_str_nat i2). c \<noteq> CHR '']''"
          using py_str_nat_no_bracket by blast+
        moreover have "'']'' @ ?R1 = [] \<or> \<not> hd ('']'' @ ?R1) \<noteq> CHR '']''"
          "'']'' @ ?R2 = [] \<or> \<not> hd ('']'' @ ?R2) \<noteq> CHR '']''" by simp_all
        ultimately have "py_str_nat i1 = py_str_nat i2 \<and> '']'' @ ?R1 = '']'' @ ?R2"
          by (intro split_unique [where P = "\<lambda>c. c \<noteq> CHR '']''"])
        then show ?thesis using \<open>x1 = Idx i1\<close> Idx by (simp add: py_str_nat_inj)
      qed
    qed
    with segs_inj [of r1 r2] ok c1 Cons show ?thesis by simp
  qed
qed

lemma field_paths_JList: "field_paths (JList l) path pos = field_paths_list l 0 path pos"
  by simp

lemma field_paths_JDict: "field_paths (JDict d) path pos = field_paths_dict d path pos"
  by simp

lemma field_paths_scalar: "is_scalar v \<Longrightarrow> field_paths v path pos = [(pos, path)]"
  by (cases v) simp_all

declare field_paths.simps [simp del]

lemma field_paths_render:
  "keys_plain data \<Longrightarrow>
     \<forall>e \<in> set (field_paths data path pos).
       \<exists>q. fst e = pos @ q \<and> snd e = render path q \<and> list_all step_ok q"
  "list_all (\<lambda>kv. key_ok (fst kv) \<and> keys_plain (snd kv)) d \<Longrightarrow>
     \<forall>e \<in> set (field_paths_dict d path pos).
       \<exists>q. fst e = pos @ q \<and> snd e = render path q \<and> list_all step_ok q"
  "list_all keys_plain l \<Longrightarrow>
     \<forall>e \<in> set (field_paths_list l idx path pos).
       \<exists>q. fst e = pos @ q \<and> snd e = render path q \<and> list_all step_ok q"
proof (induction data path pos and d path pos and l idx path pos
    rule: field_paths_field_paths_dict_field_paths_list.induct)
  case (1 data path pos)
  show ?case
  proof (cases data)
    case (JList l)
    with 1 show ?thesis by (simp add: field_paths_JList)
  next
    case (JDict d)
    with 1 show ?thesis by (simp add: field_paths_JDict)
  qed (simp_all add: field_paths_scalar)
next
  case (2 path pos)
  show ?case by simp
next
  case (3 key v rest path pos)
  let ?np = "if path \<noteq> [] then path @ ''.'' @ key else key"
  have ok: "key_ok key" "keys_plain v"
    "list_all (\<lambda>kv. key_ok (fst kv) \<and> keys_plain (snd kv)) rest"
    using 3(3) by simp_all
  have a: "\<forall>e \<in> set (field_paths v ?np (pos @ [Key key])).
       \<exists>q. fst e = (pos @ [Key key]) @ q \<and> snd e = render ?np q \<and> list_all step_ok q"
    using 3(1) ok(2) by blast
  have b: "\<forall>e \<in> set (field_paths_dict rest path pos).
       \<exists>q. fst e = pos @ q \<and> snd e = render path q \<and> list_all step_ok q"
    using 3(2) ok(3) by blast
  show ?case
  proof
    fix e assume "e \<in> set (field_paths_dict ((key, v) # rest) path pos)"
    then consider "e \<in> set (field_paths v ?np (pos @ [Key key]))"
      | "e \<in> set (field_paths_dict rest path pos)" by auto
    then show "\<exists>q. fst e = pos @ q \<and> snd e = render path q \<and> list_all step_ok q"
    proof cases
      case 1
      with a obtain q where q: "fst e = (pos @ [Key key]) @ q" "snd e = render ?np q"
        "list_all step_ok q" by blast
      then have "fst e = pos @ (Key key # q) \<and> snd e = render path (Key key # q)
          \<and> list_all step_ok (Key key # q)" using ok(1) by simp
      then show ?thesis by blast
    next
      case 2
      with b show ?thesis by blast
    qed
  qed
next
  case (4 idx path pos)
  show ?case by simp
next
  case (5 item rest idx path pos)
  let ?np = "path @ ''['' @ py_str_nat idx @ '']''"
  have ok: "keys_plain item" "list_all keys_plain rest" using 5(3) by simp_all
  have a: "\<forall>e \<in> set (field_paths item ?np (pos @ [Idx idx])).
       \<exists>q. fst e = (pos @ [Idx idx]) @ q \<and> snd e = render ?np q \<and> list_all step_ok q"
    using 5(1) ok(1) by blast
  have b: "\<forall>e \<in> set (field_paths_list rest (Suc idx) path pos).
       \<exists>q. fst e = pos @ q \<and> snd e = render path q \<and> list_all step_ok q"
    using 5(2) ok(2) by blast
  show ?case
  proof
    fix e assume "e \<in> set (field_paths_list (item # rest) idx path pos)"
    then consider "e \<in> set (field_paths item ?np (pos @ [Idx idx]))"
      | "e \<in> set (field_paths_list rest (Suc idx) path pos)" by auto
    then show "\<exists>q. fst e = pos @ q \<and> snd e = render path q \<and> list_all step_ok q"
    proof cases
      case 1
      with a obtain q where q: "fst e = (pos @ [Idx idx]) @ q" "snd e = render ?np q"
        "list_all step_ok q" by blast
      then have "fst e = pos @ (Idx idx # q) \<and> snd e = render path (Idx idx # q)
          \<and> list_all step_ok (Idx idx # q)" by simp
      then show ?thesis by blast
    next
      case 2
      with b show ?thesis by blast
    qed
  qed
qed

text \<open>
  Claim C7, as amended. In a tree all of whose keys are non-empty and contain neither
  \<^verbatim>\<open>.\<close> nor \<^verbatim>\<open>[\<close>, the walk gives different scalar positions different field paths:
  on the scalars of the tree, each listed with its position, the path determines the
  entry.
\<close>

theorem field_paths_injective:
  assumes "keys_plain T"
  shows "inj_on snd (set (field_paths T [] []))"
proof (rule inj_onI)
  fix e1 e2
  assume e: "e1 \<in> set (field_paths T [] [])" "e2 \<in> set (field_paths T [] [])"
    and eq: "snd e1 = snd e2"
  have r: "\<forall>e \<in> set (field_paths T [] []).
       \<exists>q. fst e = [] @ q \<and> snd e = render [] q \<and> list_all step_ok q"
    using assms by (rule field_paths_render(1))
  from r e(1) obtain q1 where q1: "fst e1 = q1" "snd e1 = render [] q1" "list_all step_ok q1"
    by auto
  from r e(2) obtain q2 where q2: "fst e2 = q2" "snd e2 = render [] q2" "list_all step_ok q2"
    by auto
  from q1 q2 eq have "render [] q1 = render [] q2" by simp
  with q1(3) q2(3) have "q1 = q2" by (rule render_inj)
  with q1(1) q2(1) eq show "e1 = e2" by (simp add: prod_eq_iff)
qed

theorem field_paths_injective_witness:
  "keys_plain plain_example \<and> inj_on snd (set (field_paths plain_example [] []))"
proof -
  have k: "keys_plain plain_example" by (simp add: plain_example_def key_ok_def)
  from field_paths_injective [OF k] k show ?thesis by simp
qed

text \<open>
  Claim C7 as stated fails: no key is escaped, so in
  \<^verbatim>\<open>{"a.b": 1, "a": {"b": 2}}\<close> the scalar under the key \<^verbatim>\<open>a.b\<close> and the scalar under
  \<^verbatim>\<open>b\<close> inside \<^verbatim>\<open>a\<close> both get the path \<^verbatim>\<open>a.b\<close>.
\<close>

theorem field_paths_collision_counterexample:
  "field_paths collision_example [] [] =
     [([Key ''a.b''], ''a.b''), ([Key ''a'', Key ''b''], ''a.b'')]"
  by (simp add: collision_example_def field_paths_JDict field_paths_scalar)

section \<open>The connection-string rule\<close>

lemma positions_JDict: "positions (JDict d) = positions_dict d"
  by simp

lemma positions_JList: "positions (JList l) = positions_list l 0"
  by simp

lemma positions_scalar: "is_scalar v \<Longrightarrow> positions v = [[]]"
  by (cases v) simp_all

declare positions.simps [simp del]

lemma lookup_scalar: "is_scalar v \<Longrightarrow> lookup v pos = (if pos = [] then Some v else None)"
  by (cases v; cases pos) simp_all

lemma scan_count_at_Nil: "is_scalar v \<Longrightarrow> scan_count_at v [] = snd (scan_values v)"
  by (simp add: scan_count_at_def)

lemma scan_count_at_Key:
  "map_of D k = Some v \<Longrightarrow> scan_count_at (JDict D) (Key k # q) = scan_count_at v q"
  by (simp add: scan_count_at_def)

lemma scan_count_at_Idx:
  "i < length L \<Longrightarrow> scan_count_at (JList L) (Idx i # q) = scan_count_at (L ! i) q"
  by (simp add: scan_count_at_def)

lemma scan_item_changes_fun: "scan_item_changes = (\<lambda>v. snd (scan_values v))"
  by (simp add: fun_eq_iff scan_item_changes_def)

lemma scan_changes_JList:
  "scan_item_changes (JList xs) = sum_list (map scan_item_changes xs)"
  by (simp add: scan_item_changes_fun scan_values_JList)

lemma scan_changes_JDict:
  "distinct (map fst kvs) \<Longrightarrow>
   scan_item_changes (JDict kvs) = sum_list (map (\<lambda>kv. scan_item_changes (snd kv)) kvs)"
  by (simp add: scan_item_changes_fun scan_values_JDict split_def)

lemma scan_count_sum:
  "wf_json data \<Longrightarrow>
     sum_list (map (scan_count_at data) (positions data)) = scan_item_changes data"
  "\<forall>kv \<in> set d. map_of D (fst kv) = Some (snd kv) \<and> wf_json (snd kv) \<Longrightarrow>
     sum_list (map (scan_count_at (JDict D)) (positions_dict d))
       = sum_list (map (\<lambda>kv. scan_item_changes (snd kv)) d)"
  "\<forall>j < length l. idx + j < length L \<and> L ! (idx + j) = l ! j \<and> wf_json (l ! j) \<Longrightarrow>
     sum_list (map (scan_count_at (JList L)) (positions_list l idx))
       = sum_list (map scan_item_changes l)"
proof (induction data and d and l idx arbitrary: and D and L
    rule: positions_positions_dict_positions_list.induct)
  case (1 data)
  show ?case
  proof (cases data)
    case (JList l)
    have "\<forall>j < length l. 0 + j < length l \<and> l ! (0 + j) = l ! j \<and> wf_json (l ! j)"
      using 1(3) JList by (simp add: list_all_length)
    from 1(1) [OF JList this] JList show ?thesis
      by (simp add: positions_JList scan_changes_JList)
  next
    case (JDict d)
    have d: "distinct (map fst d)" using 1(3) JDict by simp
    have "\<forall>kv \<in> set d. map_of d (fst kv) = Some (snd kv) \<and> wf_json (snd kv)"
      using 1(3) JDict by (auto simp: list_all_iff)
    from 1(2) [OF JDict this] JDict d show ?thesis
      by (simp add: positions_JDict scan_changes_JDict)
  qed (simp_all add: positions_scalar scan_count_at_Nil scan_item_changes_def)
next
  case 2
  show ?case by simp
next
  case (3 key v rest)
  have m: "map_of D key = Some v" and w: "wf_json v" using 3(3) by simp_all
  have r: "\<forall>kv \<in> set rest. map_of D (fst kv) = Some (snd kv) \<and> wf_json (snd kv)"
    using 3(3) by simp
  have "sum_list (map (scan_count_at (JDict D) \<circ> (#) (Key key)) (positions v))
      = sum_list (map (scan_count_at v) (positions v))"
    by (rule arg_cong [where f = sum_list]) (simp add: scan_count_at_Key m)
  with 3(1) [OF w] 3(2) [OF r] show ?case by simp
next
  case (4 idx)
  show ?case by simp
next
  case (5 item rest idx)
  have i: "idx < length L" "L ! idx = item" "wf_json item"
    using 5(3) [rule_format, of 0] by simp_all
  have r: "\<forall>j < length rest. Suc idx + j < length L \<and> L ! (Suc idx + j) = rest ! j
      \<and> wf_json (rest ! j)"
  proof (intro allI impI)
    fix j assume "j < length rest"
    then show "Suc idx + j < length L \<and> L ! (Suc idx + j) = rest ! j \<and> wf_json (rest ! j)"
      using 5(3) [rule_format, of "Suc j"] by simp
  qed
  have "sum_list (map (scan_count_at (JList L) \<circ> (#) (Idx idx)) (positions item))
      = sum_list (map (scan_count_at item) (positions item))"
    by (rule arg_cong [where f = sum_list]) (simp add: scan_count_at_Idx i)
  with 5(1) [OF i(3)] 5(2) [OF r] show ?case by simp
qed

lemma positions_dict_mem:
  "(k, v) \<in> set d \<Longrightarrow> r \<in> set (positions v) \<Longrightarrow> Key k # r \<in> set (positions_dict d)"
  by (induction d) auto

lemma positions_list_mem:
  "j < length l \<Longrightarrow> r \<in> set (positions (l ! j)) \<Longrightarrow>
   Idx (idx + j) # r \<in> set (positions_list l idx)"
proof (induction l arbitrary: idx j)
  case Nil
  then show ?case by simp
next
  case (Cons x l)
  show ?case
  proof (cases j)
    case 0
    with Cons.prems show ?thesis by simp
  next
    case (Suc j')
    with Cons.prems Cons.IH [of j' "Suc idx"] show ?thesis by simp
  qed
qed

lemma positions_mem:
  "lookup T pos = Some v \<Longrightarrow> is_scalar v \<Longrightarrow> pos \<in> set (positions T)"
proof (induction pos arbitrary: T)
  case Nil
  then show ?case by (simp add: positions_scalar)
next
  case (Cons x r)
  show ?case
  proof (cases T)
    case (JDict kvs)
    show ?thesis
    proof (cases x)
      case (Key k)
      with Cons.prems(1) JDict obtain v0 where v0: "map_of kvs k = Some v0" "lookup v0 r = Some v"
        by (auto split: option.splits)
      from Cons.IH [OF v0(2) Cons.prems(2)] map_of_SomeD [OF v0(1)]
      show ?thesis using JDict Key by (simp add: positions_JDict positions_dict_mem)
    next
      case (Idx i)
      with Cons.prems(1) JDict show ?thesis by simp
    qed
  next
    case (JList xs)
    show ?thesis
    proof (cases x)
      case (Key k)
      with Cons.prems(1) JList show ?thesis by simp
    next
      case (Idx i)
      with Cons.prems(1) JList have i: "i < length xs" "lookup (xs ! i) r = Some v"
        by (auto split: if_splits)
      from positions_list_mem [OF i(1) Cons.IH [OF i(2) Cons.prems(2)], of 0]
      show ?thesis using JList Idx by (simp add: positions_JList)
    qed
  qed (use Cons.prems(1) in simp_all)
qed

lemma positions_dict_heads:
  "q \<in> set (positions_dict d) \<Longrightarrow> \<exists>k r. q = Key k # r \<and> k \<in> fst ` set d"
  by (induction d) force+

lemma positions_list_heads:
  "q \<in> set (positions_list l idx) \<Longrightarrow> \<exists>j r. q = Idx j # r \<and> idx \<le> j"
proof (induction l arbitrary: idx)
  case Nil
  then show ?case by simp
next
  case (Cons x l)
  from Cons.prems consider "q \<in> (#) (Idx idx) ` set (positions x)"
    | "q \<in> set (positions_list l (Suc idx))" by auto
  then show ?case
  proof cases
    case 1
    then show ?thesis by auto
  next
    case 2
    from Cons.IH [OF 2] show ?thesis by (auto intro: Suc_leD)
  qed
qed

lemma positions_distinct:
  "wf_json data \<Longrightarrow> distinct (positions data)"
  "distinct (map fst d) \<Longrightarrow> list_all (\<lambda>kv. wf_json (snd kv)) d \<Longrightarrow> distinct (positions_dict d)"
  "list_all wf_json l \<Longrightarrow> distinct (positions_list l idx)"
proof (induction data and d and l idx rule: positions_positions_dict_positions_list.induct)
  case (1 data)
  show ?case
  proof (cases data)
    case (JList l)
    with 1 show ?thesis by (simp add: positions_JList)
  next
    case (JDict d)
    with 1 show ?thesis by (simp add: positions_JDict)
  qed (simp_all add: positions_scalar)
next
  case 2
  show ?case by simp
next
  case (3 key v rest)
  have a: "distinct (positions v)" using 3 by simp
  have b: "distinct (positions_dict rest)" using 3 by simp
  have c: "key \<notin> fst ` set rest" using 3(3) by auto
  have "(#) (Key key) ` set (positions v) \<inter> set (positions_dict rest) = {}"
    using c by (auto dest!: positions_dict_heads)
  with a b show ?case by (simp add: distinct_map)
next
  case (4 idx)
  show ?case by simp
next
  case (5 item rest idx)
  have a: "distinct (positions item)" using 5 by simp
  have b: "distinct (positions_list rest (Suc idx))" using 5 by simp
  have "(#) (Idx idx) ` set (positions item) \<inter> set (positions_list rest (Suc idx)) = {}"
    by (auto dest!: positions_list_heads)
  with a b show ?case by (simp add: distinct_map)
qed

lemma under_sensitive_key_Cons:
  "r \<noteq> [] \<Longrightarrow> under_sensitive_key (x # r) = under_sensitive_key r"
  by (cases "rev r") (simp_all add: under_sensitive_key_def)

lemma under_sensitive_key_simps:
  "under_sensitive_key [] = False"
  "under_sensitive_key [Key k] = is_sensitive_key k"
  "under_sensitive_key [Idx i] = False"
  by (simp_all add: under_sensitive_key_def)

lemma map_of_map_entries:
  "map_of (map (\<lambda>(k, v). (k, f k v)) kvs) k = map_option (f k) (map_of kvs k)"
  by (induction kvs) auto

lemma lookup_key_pass:
  "wf_json T \<Longrightarrow> lookup T pos = Some v \<Longrightarrow> is_scalar v \<Longrightarrow>
   lookup (list_item T) pos
     = Some (if under_sensitive_key pos then fst (sanitize_value v) else v)"
proof (induction pos arbitrary: T)
  case Nil
  then show ?case by (simp add: list_item_scalar under_sensitive_key_simps)
next
  case (Cons x r)
  show ?case
  proof (cases T)
    case (JDict kvs)
    then have d: "distinct (map fst kvs)" using Cons.prems(1) by simp
    show ?thesis
    proof (cases x)
      case (Key k)
      with Cons.prems(2) JDict obtain v0 where v0: "map_of kvs k = Some v0" "lookup v0 r = Some v"
        by (auto split: option.splits)
      have w: "wf_json v0" using map_of_SomeD [OF v0(1)] Cons.prems(1) JDict
        by (auto simp: list_all_iff)
      have l: "lookup (list_item T) (x # r) = lookup (dict_item k v0) r"
        using JDict Key d v0(1) by (simp add: list_item_JDict map_of_map_entries)
      show ?thesis
      proof (cases "r = []")
        case True
        with v0(2) have "v0 = v" by simp
        with True l Cons.prems(3) Key show ?thesis
          by (cases v) (simp_all add: dict_item_def under_sensitive_key_simps)
      next
        case False
        with v0(2) have "\<not> is_scalar v0" by (auto simp: lookup_scalar)
        with l Cons.IH [OF w v0(2) Cons.prems(3)] False show ?thesis
          by (simp add: dict_item_container under_sensitive_key_Cons)
      qed
    next
      case (Idx i)
      with Cons.prems(2) JDict show ?thesis by simp
    qed
  next
    case (JList xs)
    show ?thesis
    proof (cases x)
      case (Key k)
      with Cons.prems(2) JList show ?thesis by simp
    next
      case (Idx i)
      with Cons.prems(2) JList have i: "i < length xs" "lookup (xs ! i) r = Some v"
        by (auto split: if_splits)
      have w: "wf_json (xs ! i)" using i(1) Cons.prems(1) JList by (simp add: list_all_length)
      have u: "under_sensitive_key (x # r) = under_sensitive_key r"
        using Idx by (cases "r = []") (simp_all add: under_sensitive_key_simps under_sensitive_key_Cons)
      from Cons.IH [OF w i(2) Cons.prems(3)] i(1) u JList Idx show ?thesis
        by (simp add: list_item_JList)
    qed
  qed (use Cons.prems(2) in simp_all)
qed

lemma lookup_scan_pass:
  "wf_json T \<Longrightarrow> lookup T pos = Some v \<Longrightarrow> lookup (scan_item T) pos = Some (scan_item v)"
proof (induction pos arbitrary: T)
  case Nil
  then show ?case by simp
next
  case (Cons x r)
  show ?case
  proof (cases T)
    case (JDict kvs)
    then have d: "distinct (map fst kvs)" using Cons.prems(1) by simp
    show ?thesis
    proof (cases x)
      case (Key k)
      with Cons.prems(2) JDict obtain v0 where v0: "map_of kvs k = Some v0" "lookup v0 r = Some v"
        by (auto split: option.splits)
      have w: "wf_json v0" using map_of_SomeD [OF v0(1)] Cons.prems(1) JDict
        by (auto simp: list_all_iff)
      have "lookup (scan_item T) (x # r) = lookup (scan_item v0) r"
        using JDict Key d v0(1) map_of_map_entries [of "\<lambda>k v. scan_item v" kvs k]
        by (simp add: scan_item_JDict)
      with Cons.IH [OF w v0(2)] show ?thesis by simp
    next
      case (Idx i)
      with Cons.prems(2) JDict show ?thesis by simp
    qed
  next
    case (JList xs)
    show ?thesis
    proof (cases x)
      case (Key k)
      with Cons.prems(2) JList show ?thesis by simp
    next
      case (Idx i)
      with Cons.prems(2) JList have i: "i < length xs" "lookup (xs ! i) r = Some v"
        by (auto split: if_splits)
      have w: "wf_json (xs ! i)" using i(1) Cons.prems(1) JList by (simp add: list_all_length)
      from Cons.IH [OF w i(2)] i(1) JList Idx show ?thesis
        by (simp add: scan_item_JList)
    qed
  qed (use Cons.prems(2) in simp_all)
qed

lemma scan_conn_string:
  "scan_values (JStr ''postgres://user:pw@host/db'') = (JStr ''postgres://PLACEHOLDER'', 1)"
  by code_simp

lemma sanitize_conn_string:
  "sanitize_value (JStr ''postgres://user:pw@host/db'') = (JStr PLACEHOLDER, True)"
  by code_simp

lemma scan_placeholder: "scan_values (JStr PLACEHOLDER) = (JStr PLACEHOLDER, 0)"
  by (simp add: scan_values_JStr)

text \<open>
  Claim C5, as amended. Let the string \<^verbatim>\<open>postgres://user:pw@host/db\<close> stand at a position
  \<open>pos\<close> of a tree whose root is a dict (and whose dicts have distinct keys). The engine
  returns a result; the count of the value scan is the sum, over the positions of the
  scalars of the tree the key pass hands over, of what it counts for the scalar there,
  and \<open>pos\<close> is one of these positions, listed once. If the last step of \<open>pos\<close> is not
  a sensitive key (a key the classifier rejects, or a list index), the final value at
  \<open>pos\<close> is \<^verbatim>\<open>postgres://PLACEHOLDER\<close> and the value scan counts exactly 1 for it. If
  it is a sensitive key, the key pass has replaced the value by the bare placeholder, and
  the value scan counts 0 for it.
\<close>

theorem connection_string_rule:
  assumes "wf_json (JDict d)"
    and "lookup (JDict d) pos = Some (JStr ''postgres://user:pw@host/db'')"
  shows "\<exists>kd kc T' vc.
      sanitize_dict d = (kd, kc) \<and> scan_values (JDict kd) = (T', vc)
    \<and> run_passes (JDict d) = Inr (T', kc, vc)
    \<and> vc = sum_list (map (scan_count_at (JDict kd)) (positions (JDict kd)))
    \<and> distinct (positions (JDict kd)) \<and> pos \<in> set (positions (JDict kd))
    \<and> (if under_sensitive_key pos
        then lookup T' pos = Some (JStr PLACEHOLDER) \<and> scan_count_at (JDict kd) pos = 0
        else lookup T' pos = Some (JStr ''postgres://PLACEHOLDER'')
             \<and> scan_count_at (JDict kd) pos = 1)"
proof -
  let ?S = "JStr ''postgres://user:pw@host/db''"
  let ?K = "list_item (JDict d)"
  let ?v = "if under_sensitive_key pos then JStr PLACEHOLDER else ?S"
  have K: "?K = JDict (fst (sanitize_dict d))" by (simp add: list_item_def)
  have w: "wf_json ?K" using key_pass_shape [OF assms(1)] by simp
  have l: "lookup ?K pos = Some ?v"
    using lookup_key_pass [OF assms(1) assms(2)] by (simp add: sanitize_conn_string)
  have sc: "is_scalar ?v" by simp
  have m: "pos \<in> set (positions ?K)" using l sc by (rule positions_mem)
  have c: "scan_count_at ?K pos = snd (scan_values ?v)"
    using l by (simp add: scan_count_at_def)
  have f: "lookup (scan_item ?K) pos = Some (scan_item ?v)"
    using w l by (rule lookup_scan_pass)
  have s: "snd (scan_values ?K) = sum_list (map (scan_count_at ?K) (positions ?K))"
    using scan_count_sum(1) [OF w] by (simp add: scan_item_changes_def)
  have r: "run_passes (JDict d) = Inr (fst (scan_values ?K), snd (sanitize_dict d), snd (scan_values ?K))"
    by (simp add: run_passes_def K split: prod.splits)
  have e: "(if under_sensitive_key pos
        then lookup (fst (scan_values ?K)) pos = Some (JStr PLACEHOLDER) \<and> scan_count_at ?K pos = 0
        else lookup (fst (scan_values ?K)) pos = Some (JStr ''postgres://PLACEHOLDER'')
             \<and> scan_count_at ?K pos = 1)"
    using f c by (simp add: scan_item_def scan_conn_string scan_placeholder)
  show ?thesis
  proof (intro exI conjI)
    show "sanitize_dict d = (fst (sanitize_dict d), snd (sanitize_dict d))" by simp
    show "scan_values (JDict (fst (sanitize_dict d)))
        = (fst (scan_values ?K), snd (scan_values ?K))" by (simp add: K)
    show "run_passes (JDict d) = Inr (fst (scan_values ?K), snd (sanitize_dict d), snd (scan_values ?K))"
      by (rule r)
    show "snd (scan_values ?K)
        = sum_list (map (scan_count_at (JDict (fst (sanitize_dict d))))
            (positions (JDict (fst (sanitize_dict d)))))" using s by (simp add: K)
    show "distinct (positions (JDict (fst (sanitize_dict d))))"
      using positions_distinct(1) [OF w] by (simp add: K)
    show "pos \<in> set (positions (JDict (fst (sanitize_dict d))))" using m by (simp add: K)
    show "if under_sensitive_key pos
        then lookup (fst (scan_values ?K)) pos = Some (JStr PLACEHOLDER)
             \<and> scan_count_at (JDict (fst (sanitize_dict d))) pos = 0
        else lookup (fst (scan_values ?K)) pos = Some (JStr ''postgres://PLACEHOLDER'')
             \<and> scan_count_at (JDict (fst (sanitize_dict d))) pos = 1"
      using e by (simp only: K)
  qed
qed

theorem connection_string_rule_witness:
  "wf_json (JDict conn_example)
   \<and> lookup (JDict conn_example) [Key ''db'', Key ''url''] = Some (JStr ''postgres://user:pw@host/db'')
   \<and> \<not> under_sensitive_key [Key ''db'', Key ''url'']
   \<and> (\<exists>kd kc T' vc.
        run_passes (JDict conn_example) = Inr (T', kc, vc)
      \<and> vc = sum_list (map (scan_count_at (JDict kd)) (positions (JDict kd)))
      \<and> lookup T' [Key ''db'', Key ''url''] = Some (JStr ''postgres://PLACEHOLDER'')
      \<and> scan_count_at (JDict kd) [Key ''db'', Key ''url''] = 1)"
proof -
  have w: "wf_json (JDict conn_example)" by (simp add: conn_example_def)
  have l: "lookup (JDict conn_example) [Key ''db'', Key ''url'']
      = Some (JStr ''postgres://user:pw@host/db'')" by (simp add: conn_example_def)
  have "\<not> is_sensitive_key ''url''" by code_simp
  then have u: "\<not> under_sensitive_key [Key ''db'', Key ''url'']"
    by (simp add: under_sensitive_key_def)
  from connection_string_rule [OF w l] u have "\<exists>kd kc T' vc.
        run_passes (JDict conn_example) = Inr (T', kc, vc)
      \<and> vc = sum_list (map (scan_count_at (JDict kd)) (positions (JDict kd)))
      \<and> lookup T' [Key ''db'', Key ''url''] = Some (JStr ''postgres://PLACEHOLDER'')
      \<and> scan_count_at (JDict kd) [Key ''db'', Key ''url''] = 1"
    by (simp only: if_False) blast
  with w l u show ?thesis by blast
qed

text \<open>
  Claim C5 as stated fails for a position under a sensitive key: the key pass replaces
  the whole value first, so the final value is the bare placeholder and the value scan
  counts nothing.
\<close>

theorem connection_string_sensitive_key_counterexample:
  "is_sensitive_key ''DB_PASSWORD''
   \<and> run_passes (JDict [(''DB_PASSWORD'', JStr ''postgres://user:pw@host/db'')])
       = Inr (JDict [(''DB_PASSWORD'', JStr ''PLACEHOLDER'')], 1, 0)"
  by code_simp

section \<open>The matcher on the pattern syntax\<close>

lemma rx_lit:
  "rx ic (lit l) (n, s, g) =
     (if lit_prefix ic l s then [(n + length l, drop (length l) s, g)] else [])"
proof (induction l arbitrary: n s)
  case Nil
  show ?case by (simp add: lit_def)
next
  case (Cons a l)
  have l: "lit (a # l) = Seq (Chr (Lit a)) (lit l)" by (simp add: lit_def)
  show ?case
  proof (cases s)
    case Nil
    then show ?thesis by (simp add: l)
  next
    case (Cons c cs)
    with Cons.IH [of "Suc n" cs] show ?thesis by (simp add: l)
  qed
qed


lemma rx_cat_Nil: "rx ic (cat []) st = [st]"
  by (simp add: cat_def)

lemma rx_cat_Cons: "rx ic (cat (r # rs)) st = concat (map (rx ic (cat rs)) (rx ic r st))"
  by (simp add: cat_def)




lemma rx_Optional: "rx ic (Optional r) st = rx ic r st @ [st]"
  by (simp add: Optional_def)

lemma rx_Star_Chr:
  "rx ic (Star (Chr a)) (n, s, g) =
     (case s of
        [] \<Rightarrow> [(n, s, g)]
      | c # cs \<Rightarrow> if atom_match ic a c then rx ic (Star (Chr a)) (Suc n, cs, g) @ [(n, s, g)]
                  else [(n, s, g)])"
  by (cases s) simp_all

lemma rx_Seq_nonempty:
  "rx ic (Seq a b) st \<noteq> [] \<longleftrightarrow> (\<exists>st' \<in> set (rx ic a st). rx ic b st' \<noteq> [])"
  by auto

lemma rx_Eol: "rx ic Eol (n, s, g) = (if at_eol s then [(n, s, g)] else [])"
  by (simp add: at_eol_def)

lemma rx_Bol: "rx ic Bol (n, s, g) = (if n = 0 then [(n, s, g)] else [])"
  by simp

lemma rx_Chr:
  "rx ic (Chr a) (n, s, g) =
     (case s of [] \<Rightarrow> [] | c # cs \<Rightarrow> if atom_match ic a c then [(Suc n, cs, g)] else [])"
  by simp



declare rx.simps [simp del]

lemma rx_Star_Chr_set:
  "set (rx ic (Star (Chr a)) (n, s, g)) =
     {(n + k, drop k s, g) | k. k \<le> length (takeWhile (atom_match ic a) s)}"
proof (induction s arbitrary: n)
  case Nil
  show ?case by (subst rx_Star_Chr) auto
next
  case (Cons c cs)
  show ?case
  proof (cases "atom_match ic a c")
    case False
    then show ?thesis by (subst rx_Star_Chr) auto
  next
    case True
    have "set (rx ic (Star (Chr a)) (n, c # cs, g))
        = {(Suc n + k, drop k cs, g) | k. k \<le> length (takeWhile (atom_match ic a) cs)}
          \<union> {(n, c # cs, g)}"
      using True Cons.IH [of "Suc n"] by (subst rx_Star_Chr) simp
    also have "\<dots> = {(n + k, drop k (c # cs), g) | k.
        k \<le> length (takeWhile (atom_match ic a) (c # cs))}" (is "?A \<union> ?B = ?C")
    proof (intro set_eqI iffI)
      fix x assume "x \<in> ?A \<union> ?B"
      then consider k where "x = (Suc n + k, drop k cs, g)"
          "k \<le> length (takeWhile (atom_match ic a) cs)" | "x = (n, c # cs, g)" by auto
      then show "x \<in> ?C"
      proof cases
        case 1
        then have "x = (n + Suc k, drop (Suc k) (c # cs), g)
            \<and> Suc k \<le> length (takeWhile (atom_match ic a) (c # cs))" using True by simp
        then show ?thesis by blast
      next
        case 2
        then have "x = (n + 0, drop 0 (c # cs), g)
            \<and> 0 \<le> length (takeWhile (atom_match ic a) (c # cs))" by simp
        then show ?thesis by blast
      qed
    next
      fix x assume "x \<in> ?C"
      then obtain k where k: "x = (n + k, drop k (c # cs), g)"
        "k \<le> length (takeWhile (atom_match ic a) (c # cs))" by blast
      show "x \<in> ?A \<union> ?B"
      proof (cases k)
        case 0
        with k show ?thesis by simp
      next
        case (Suc k')
        with k True have "x = (Suc n + k', drop k' cs, g)
            \<and> k' \<le> length (takeWhile (atom_match ic a) cs)" by simp
        then show ?thesis by blast
      qed
    qed
    finally show ?thesis .
  qed
qed

section \<open>The key classifier\<close>

lemma re_match_nonempty: "re_match ic p s \<noteq> None \<longleftrightarrow> rx ic p (0, s, None) \<noteq> []"
  by (simp add: re_match_def split: list.splits)

lemma atom_match_Lit_True: "atom_match True (Lit a) c \<longleftrightarrow> lower_char c = lower_char a"
  by auto

lemma lit_prefix_True:
  "lit_prefix True w x \<longleftrightarrow> length w \<le> length x \<and> ci_eq (take (length w) x) w"
proof (induction w arbitrary: x)
  case Nil
  show ?case by (simp add: ci_eq_def)
next
  case (Cons a w)
  show ?case
  proof (cases x)
    case Nil
    then show ?thesis by simp
  next
    case (Cons c cs)
    with Cons.IH [of cs] show ?thesis by (auto simp: ci_eq_def)
  qed
qed

lemma lit_prefix_append:
  "lit_prefix ic (a @ b) s \<longleftrightarrow> lit_prefix ic a s \<and> lit_prefix ic b (drop (length a) s)"
proof (induction a arbitrary: s)
  case Nil
  show ?case by simp
next
  case (Cons x a)
  then show ?case by (cases s) auto
qed

lemma rx_lit_Eol:
  "rx ic (cat [lit w, Eol]) (n, x, g) \<noteq> [] \<longleftrightarrow> lit_prefix ic w x \<and> at_eol (drop (length w) x)"
  by (simp add: rx_cat_Cons rx_cat_Nil rx_lit rx_Eol)

lemma le_takeWhile_length:
  "k \<le> length (takeWhile P s) \<longleftrightarrow> k \<le> length s \<and> (\<forall>c \<in> set (take k s). P c)"
proof (induction s arbitrary: k)
  case Nil
  show ?case by simp
next
  case (Cons c cs)
  show ?case
  proof (cases k)
    case 0
    then show ?thesis by simp
  next
    case (Suc k')
    with Cons.IH [of k'] show ?thesis by auto
  qed
qed

lemma suffix_pattern:
  "re_match True (cat [Star (Chr Dot), lit w, Eol]) key \<noteq> None \<longleftrightarrow>
     (\<exists>k. k \<le> length key \<and> CHR 0x0A \<notin> set (take k key)
        \<and> lit_prefix True w (drop k key) \<and> at_eol (drop (k + length w) key))"
proof -
  have "re_match True (cat [Star (Chr Dot), lit w, Eol]) key \<noteq> None \<longleftrightarrow>
      (\<exists>st' \<in> set (rx True (Star (Chr Dot)) (0, key, None)). rx True (cat [lit w, Eol]) st' \<noteq> [])"
    unfolding re_match_nonempty by (simp add: rx_cat_Cons [of True "Star (Chr Dot)"])
  also have "\<dots> \<longleftrightarrow> (\<exists>k. k \<le> length (takeWhile (atom_match True Dot) key)
      \<and> rx True (cat [lit w, Eol]) (k, drop k key, None) \<noteq> [])"
    by (auto simp: rx_Star_Chr_set)
  also have "\<dots> \<longleftrightarrow> (\<exists>k. k \<le> length key \<and> CHR 0x0A \<notin> set (take k key)
        \<and> lit_prefix True w (drop k key) \<and> at_eol (drop (k + length w) key))"
    by (auto simp: rx_lit_Eol le_takeWhile_length add.commute)
  finally show ?thesis .
qed

lemma exact_pattern:
  "re_match True (cat [Bol, lit w, Eol]) key \<noteq> None \<longleftrightarrow>
     lit_prefix True w key \<and> at_eol (drop (length w) key)"
  unfolding re_match_nonempty by (simp add: rx_cat_Cons [of True Bol] rx_Bol rx_lit_Eol)

lemma ci_eq_length: "ci_eq a b \<Longrightarrow> length a = length b"
  unfolding ci_eq_def by (rule map_eq_imp_length_eq)

lemma exact_words:
  "lit_prefix True w key \<and> at_eol (drop (length w) key) \<longleftrightarrow>
     ci_eq key w \<or> (\<exists>k'. key = k' @ [CHR 0x0A] \<and> ci_eq k' w)"
proof
  assume a: "lit_prefix True w key \<and> at_eol (drop (length w) key)"
  then have l: "length w \<le> length key" and c: "ci_eq (take (length w) key) w"
    by (simp_all add: lit_prefix_True)
  from a consider "drop (length w) key = []" | "drop (length w) key = [CHR 0x0A]"
    by (auto simp: at_eol_def)
  then show "ci_eq key w \<or> (\<exists>k'. key = k' @ [CHR 0x0A] \<and> ci_eq k' w)"
  proof cases
    case 1
    then have "take (length w) key = key" by simp
    with c show ?thesis by simp
  next
    case 2
    have "key = take (length w) key @ drop (length w) key" by simp
    with 2 have "key = take (length w) key @ [CHR 0x0A]" by simp
    with c show ?thesis by blast
  qed
next
  assume "ci_eq key w \<or> (\<exists>k'. key = k' @ [CHR 0x0A] \<and> ci_eq k' w)"
  then show "lit_prefix True w key \<and> at_eol (drop (length w) key)"
  proof
    assume c: "ci_eq key w"
    from ci_eq_length [OF c] c show ?thesis by (simp add: lit_prefix_True at_eol_def)
  next
    assume "\<exists>k'. key = k' @ [CHR 0x0A] \<and> ci_eq k' w"
    then obtain k' where k: "key = k' @ [CHR 0x0A]" "ci_eq k' w" by blast
    from ci_eq_length [OF k(2)] k show ?thesis by (simp add: lit_prefix_True at_eol_def)
  qed
qed

lemma suffix_rule_split:
  "suffix_rule w k \<longleftrightarrow>
     (\<exists>n. n + length w = length k \<and> CHR 0x0A \<notin> set (take n k) \<and> ci_eq (drop n k) w)"
proof
  assume "suffix_rule w k"
  then have "(length k - length w) + length w = length k
      \<and> CHR 0x0A \<notin> set (take (length k - length w) k) \<and> ci_eq (drop (length k - length w) k) w"
    by (simp add: suffix_rule_def ends_with_ci_def)
  then show "\<exists>n. n + length w = length k \<and> CHR 0x0A \<notin> set (take n k) \<and> ci_eq (drop n k) w"
    by blast
next
  assume "\<exists>n. n + length w = length k \<and> CHR 0x0A \<notin> set (take n k) \<and> ci_eq (drop n k) w"
  then obtain n where n: "n + length w = length k" "CHR 0x0A \<notin> set (take n k)"
    "ci_eq (drop n k) w" by blast
  from n(1) have "length k - length w = n" "length w \<le> length k" by simp_all
  with n show "suffix_rule w k" by (simp add: suffix_rule_def ends_with_ci_def)
qed

lemma suffix_words:
  "(\<exists>k. k \<le> length key \<and> CHR 0x0A \<notin> set (take k key)
        \<and> lit_prefix True w (drop k key) \<and> at_eol (drop (k + length w) key)) \<longleftrightarrow>
   suffix_rule w key \<or> (\<exists>k'. key = k' @ [CHR 0x0A] \<and> suffix_rule w k')"
proof
  assume "\<exists>k. k \<le> length key \<and> CHR 0x0A \<notin> set (take k key)
        \<and> lit_prefix True w (drop k key) \<and> at_eol (drop (k + length w) key)"
  then obtain k where k: "k \<le> length key" "CHR 0x0A \<notin> set (take k key)"
    "lit_prefix True w (drop k key)" "at_eol (drop (k + length w) key)" by blast
  have e: "lit_prefix True w (drop k key) \<and> at_eol (drop (length w) (drop k key))"
    using k(3,4) by (simp add: add.commute)
  from e [unfolded exact_words]
  show "suffix_rule w key \<or> (\<exists>k'. key = k' @ [CHR 0x0A] \<and> suffix_rule w k')"
  proof
    assume c: "ci_eq (drop k key) w"
    from ci_eq_length [OF c] k(1) have "k + length w = length key" by simp
    with k(2) c show ?thesis unfolding suffix_rule_split by blast
  next
    assume "\<exists>k'. drop k key = k' @ [CHR 0x0A] \<and> ci_eq k' w"
    then obtain t where t: "drop k key = t @ [CHR 0x0A]" "ci_eq t w" by blast
    have key: "key = (take k key @ t) @ [CHR 0x0A]"
      using t(1) append_take_drop_id [of k key] by simp
    have "k + length w = length (take k key @ t)"
      using ci_eq_length [OF t(2)] k(1) by simp
    moreover have "take k (take k key @ t) = take k key" using k(1) by simp
    moreover have "drop k (take k key @ t) = t" using k(1) by simp
    ultimately have "suffix_rule w (take k key @ t)"
      unfolding suffix_rule_split using k(2) t(2) by metis
    with key show ?thesis by blast
  qed
next
  assume "suffix_rule w key \<or> (\<exists>k'. key = k' @ [CHR 0x0A] \<and> suffix_rule w k')"
  then show "\<exists>k. k \<le> length key \<and> CHR 0x0A \<notin> set (take k key)
        \<and> lit_prefix True w (drop k key) \<and> at_eol (drop (k + length w) key)"
  proof
    assume "suffix_rule w key"
    then obtain n where n: "n + length w = length key" "CHR 0x0A \<notin> set (take n key)"
      "ci_eq (drop n key) w" unfolding suffix_rule_split by blast
    have "lit_prefix True w (drop n key) \<and> at_eol (drop (length w) (drop n key))"
      unfolding exact_words using n(3) by simp
    with n(1,2) have "n \<le> length key \<and> CHR 0x0A \<notin> set (take n key)
        \<and> lit_prefix True w (drop n key) \<and> at_eol (drop (n + length w) key)"
      by (simp add: add.commute)
    then show ?thesis by blast
  next
    assume "\<exists>k'. key = k' @ [CHR 0x0A] \<and> suffix_rule w k'"
    then obtain k' n where k: "key = k' @ [CHR 0x0A]" and n: "n + length w = length k'"
      "CHR 0x0A \<notin> set (take n k')" "ci_eq (drop n k') w" unfolding suffix_rule_split by blast
    have d: "drop n key = drop n k' @ [CHR 0x0A]" using k n(1) by simp
    have "lit_prefix True w (drop n key) \<and> at_eol (drop (length w) (drop n key))"
      unfolding exact_words using n(3) d by blast
    moreover have "take n key = take n k'" using k n(1) by simp
    ultimately have "n \<le> length key \<and> CHR 0x0A \<notin> set (take n key)
        \<and> lit_prefix True w (drop n key) \<and> at_eol (drop (n + length w) key)"
      using n(1,2) k by (simp add: add.commute)
    then show ?thesis by blast
  qed
qed

lemma lower_char_sep:
  "lower_char c = CHR ''_'' \<longleftrightarrow> c = CHR ''_''"
  "lower_char c = CHR ''-'' \<longleftrightarrow> c = CHR ''-''"
  by (auto simp: lower_char_def split: if_splits)

lemma upper_char_sep:
  "upper_char c = CHR ''_'' \<longleftrightarrow> c = CHR ''_''"
  "upper_char c = CHR ''-'' \<longleftrightarrow> c = CHR ''-''"
  by (auto simp: upper_char_def split: if_splits)

lemma lower_char_sep_val:
  "lower_char CHR ''_'' = CHR ''_''" "lower_char CHR ''-'' = CHR ''-''"
  by (simp_all add: lower_char_def)

lemma sep_class:
  "cls_match True [CChar CHR ''_'', CChar CHR ''-''] c \<longleftrightarrow> c = CHR ''_'' \<or> c = CHR ''-''"
  by (auto simp: cls_match_def lower_char_sep upper_char_sep)

lemma sep_lit:
  "atom_match True (Lit CHR ''_'') c \<longleftrightarrow> c = CHR ''_''"
  "atom_match True (Lit CHR ''-'') c \<longleftrightarrow> c = CHR ''-''"
  by (auto simp: lower_char_sep lower_char_sep_val)

lemma lit_eol_append:
  "lit_prefix True (a @ w) key \<and> at_eol (drop (length (a @ w)) key) \<longleftrightarrow>
     lit_prefix True a key
     \<and> lit_prefix True w (drop (length a) key)
     \<and> at_eol (drop (length w) (drop (length a) key))"
  by (auto simp: lit_prefix_append add.commute)

lemma sep_key_tail:
  "rx True (cat [Optional (Chr (Cls [CChar CHR ''_'', CChar CHR ''-''])), lit ''key'', Eol])
       (n, x, None) \<noteq> [] \<longleftrightarrow>
     (lit_prefix True ''_key'' x \<and> at_eol (drop (length ''_key'') x))
   \<or> (lit_prefix True ''-key'' x \<and> at_eol (drop (length ''-key'') x))
   \<or> (lit_prefix True ''key'' x \<and> at_eol (drop (length ''key'') x))"
proof -
  let ?C = "Chr (Cls [CChar CHR ''_'', CChar CHR ''-''])"
  have u: "rx True (cat [Optional ?C, lit ''key'', Eol]) (n, y, None) \<noteq> [] \<longleftrightarrow>
      (\<exists>st' \<in> set (rx True ?C (n, y, None)). rx True (cat [lit ''key'', Eol]) st' \<noteq> [])
      \<or> rx True (cat [lit ''key'', Eol]) (n, y, None) \<noteq> []" for y
    by (auto simp: rx_cat_Cons [of True "Optional ?C"] rx_Optional)
  show ?thesis
  proof (cases x)
    case Nil
    then show ?thesis unfolding u rx_lit_Eol by (simp add: rx_Chr)
  next
    case (Cons c cs)
    have k: "lit_prefix True ''_key'' (c # cs) \<longleftrightarrow> c = CHR ''_'' \<and> lit_prefix True ''key'' cs"
      "lit_prefix True ''-key'' (c # cs) \<longleftrightarrow> c = CHR ''-'' \<and> lit_prefix True ''key'' cs"
      using sep_lit [of c] by (simp_all del: atom_match.simps)
    have "rx True (cat [Optional ?C, lit ''key'', Eol]) (n, c # cs, None) \<noteq> [] \<longleftrightarrow>
        ((c = CHR ''_'' \<or> c = CHR ''-'')
            \<and> lit_prefix True ''key'' cs \<and> at_eol (drop (length ''key'') cs))
        \<or> (lit_prefix True ''key'' (c # cs) \<and> at_eol (drop (length ''key'') (c # cs)))"
      unfolding u by (auto simp: rx_Chr sep_class rx_lit_Eol simp del: lit_prefix.simps)
    also have "\<dots> \<longleftrightarrow>
        (lit_prefix True ''_key'' (c # cs) \<and> at_eol (drop (length ''_key'') (c # cs)))
      \<or> (lit_prefix True ''-key'' (c # cs) \<and> at_eol (drop (length ''-key'') (c # cs)))
      \<or> (lit_prefix True ''key'' (c # cs) \<and> at_eol (drop (length ''key'') (c # cs)))"
      unfolding k by auto
    finally show ?thesis using Cons by simp
  qed
qed

lemma api_key_pattern:
  "re_match True (cat [Bol, lit ''api'',
        Optional (Chr (Cls [CChar CHR ''_'', CChar CHR ''-''])), lit ''key'', Eol]) key \<noteq> None
   \<longleftrightarrow> (lit_prefix True ''api_key'' key \<and> at_eol (drop (length ''api_key'') key))
     \<or> (lit_prefix True ''api-key'' key \<and> at_eol (drop (length ''api-key'') key))
     \<or> (lit_prefix True ''apikey'' key \<and> at_eol (drop (length ''apikey'') key))"
proof -
  let ?C = "Chr (Cls [CChar CHR ''_'', CChar CHR ''-''])"
  have g: "re_match True (cat [Bol, lit a, Optional ?C, lit ''key'', Eol]) key \<noteq> None
    \<longleftrightarrow> lit_prefix True a key
        \<and> rx True (cat [Optional ?C, lit ''key'', Eol]) (length a, drop (length a) key, None) \<noteq> []"
    for a
    unfolding re_match_nonempty
    by (simp add: rx_cat_Cons [of True Bol] rx_Bol rx_cat_Cons [of True "lit a"] rx_lit)
  have w: "''api_key'' = ''api'' @ ''_key''" "''api-key'' = ''api'' @ ''-key''"
    "''apikey'' = ''api'' @ ''key''" by simp_all
  show ?thesis
    unfolding g [of "''api''"] sep_key_tail w lit_eol_append by blast
qed

lemma is_sensitive_key_unfold:
  "is_sensitive_key key \<longleftrightarrow>
     list_ex (\<lambda>w. re_match True (cat [Star (Chr Dot), lit w, Eol]) key \<noteq> None) SUFFIX_WORDS
   \<or> re_match True (cat [Bol, lit ''Authorization'', Eol]) key \<noteq> None
   \<or> re_match True (cat [Bol, lit ''token'', Eol]) key \<noteq> None
   \<or> re_match True (cat [Bol, lit ''api'',
        Optional (Chr (Cls [CChar CHR ''_'', CChar CHR ''-''])), lit ''key'', Eol]) key \<noteq> None"
  unfolding is_sensitive_key_def SENSITIVE_KEY_PATTERNS_def SUFFIX_WORDS_def
  by (simp only: list_ex_Cons_iff list_ex_Nil_iff) blast

lemma key_rules_unfold:
  "key_rules k \<longleftrightarrow> list_ex (\<lambda>w. suffix_rule w k) SUFFIX_WORDS
     \<or> ci_eq k ''Authorization'' \<or> ci_eq k ''token''
     \<or> ci_eq k ''api_key'' \<or> ci_eq k ''api-key'' \<or> ci_eq k ''apikey''"
  unfolding key_rules_def EXACT_WORDS_def
  by (simp only: list_ex_Cons_iff list_ex_Nil_iff) blast

lemma is_sensitive_key_chars:
  "is_sensitive_key key \<longleftrightarrow> key_rules key \<or> (\<exists>k. key = k @ [CHR 0x0A] \<and> key_rules k)"
proof -
  have s: "list_ex (\<lambda>w. re_match True (cat [Star (Chr Dot), lit w, Eol]) key \<noteq> None) SUFFIX_WORDS
      \<longleftrightarrow> list_ex (\<lambda>w. suffix_rule w key) SUFFIX_WORDS
          \<or> (\<exists>k. key = k @ [CHR 0x0A] \<and> list_ex (\<lambda>w. suffix_rule w k) SUFFIX_WORDS)"
    unfolding suffix_pattern suffix_words list_ex_iff by blast
  show ?thesis
    unfolding is_sensitive_key_unfold key_rules_unfold s exact_pattern api_key_pattern exact_words
    by blast
qed

lemma suffix_rule_no_newline:
  "CHR 0x0A \<notin> set key \<Longrightarrow> suffix_rule w key = ends_with_ci w key"
  by (auto simp: suffix_rule_def dest: in_set_takeD)

text \<open>
  Claim C6. What \<^verbatim>\<open>is_sensitive_key\<close> computes, for every key: it returns true exactly
  when the key, or the key without one line feed at its end, satisfies a rule as a whole,
  ignoring case: it ends with \<^verbatim>\<open>_TOKEN\<close>, \<^verbatim>\<open>_API_KEY\<close>, \<^verbatim>\<open>_APP_KEY\<close>, \<^verbatim>\<open>_PASSWORD\<close>, \<^verbatim>\<open>_SECRET\<close>
  or \<^verbatim>\<open>_PAT\<close> and has no line feed before that word, or it is \<^verbatim>\<open>Authorization\<close>, \<^verbatim>\<open>token\<close>,
  \<^verbatim>\<open>api_key\<close>, \<^verbatim>\<open>api-key\<close> or \<^verbatim>\<open>apikey\<close>. On a key without a line feed this is what the
  claim says: true exactly when the key ends with one of the six words or is one of the
  five names, ignoring case, and false for every other key. On a key with a line feed the
  function departs from the claim in both directions; the anchors \<^verbatim>\<open>^\<close> and \<^verbatim>\<open>$\<close> and the
  leading \<^verbatim>\<open>.*\<close> of the patterns are written to match the whole key and do not.
\<close>

theorem key_classifier_rules:
  "(is_sensitive_key key \<longleftrightarrow> key_rules key \<or> (\<exists>k. key = k @ [CHR 0x0A] \<and> key_rules k))
   \<and> (CHR 0x0A \<notin> set key \<longrightarrow>
        (is_sensitive_key key \<longleftrightarrow>
           list_ex (\<lambda>w. ends_with_ci w key) SUFFIX_WORDS \<or> list_ex (ci_eq key) EXACT_WORDS))"
proof (intro conjI impI)
  show "is_sensitive_key key \<longleftrightarrow> key_rules key \<or> (\<exists>k. key = k @ [CHR 0x0A] \<and> key_rules k)"
    by (rule is_sensitive_key_chars)
next
  assume n: "CHR 0x0A \<notin> set key"
  then have "\<not> (\<exists>k. key = k @ [CHR 0x0A] \<and> key_rules k)" by auto
  then have "is_sensitive_key key \<longleftrightarrow> key_rules key"
    unfolding is_sensitive_key_chars by blast
  then show "is_sensitive_key key \<longleftrightarrow>
      list_ex (\<lambda>w. ends_with_ci w key) SUFFIX_WORDS \<or> list_ex (ci_eq key) EXACT_WORDS"
    by (simp add: key_rules_def suffix_rule_no_newline [OF n])
qed

theorem key_classifier_rules_witness:
  "CHR 0x0A \<notin> set ''GITHUB_TOKEN'' \<and> is_sensitive_key ''GITHUB_TOKEN''
   \<and> CHR 0x0A \<notin> set ''tokens'' \<and> \<not> is_sensitive_key ''tokens''"
proof -
  have a: "CHR 0x0A \<notin> set ''GITHUB_TOKEN''" "CHR 0x0A \<notin> set ''tokens''" by simp_all
  have b: "list_ex (\<lambda>w. ends_with_ci w ''GITHUB_TOKEN'') SUFFIX_WORDS" by code_simp
  have c: "\<not> (list_ex (\<lambda>w. ends_with_ci w ''tokens'') SUFFIX_WORDS
      \<or> list_ex (ci_eq ''tokens'') EXACT_WORDS)" by code_simp
  from key_classifier_rules [of "''GITHUB_TOKEN''"] key_classifier_rules [of "''tokens''"] a b c
  show ?thesis by blast
qed

text \<open>
  Claim C6 fails on keys with a line feed. \<^verbatim>\<open>$\<close> also matches before a line feed that ends
  the string, so the key \<^verbatim>\<open>token\<close> followed by a line feed is accepted although as a whole
  it is none of the five names and ends with none of the six words; and \<^verbatim>\<open>.*\<close> does not
  cross a line feed, so a key that ends in \<^verbatim>\<open>_TOKEN\<close> with a line feed before it is
  rejected, and the value under it is left as it is.
\<close>

theorem key_classifier_line_feed_counterexample:
  "is_sensitive_key (''token'' @ [CHR 0x0A])
   \<and> \<not> list_ex (ci_eq (''token'' @ [CHR 0x0A])) EXACT_WORDS
   \<and> \<not> list_ex (\<lambda>w. ends_with_ci w (''token'' @ [CHR 0x0A])) SUFFIX_WORDS
   \<and> ends_with_ci ''_TOKEN'' (''a'' @ [CHR 0x0A] @ ''b_TOKEN'')
   \<and> \<not> is_sensitive_key (''a'' @ [CHR 0x0A] @ ''b_TOKEN'')"
  by code_simp

section \<open>The value-scan patterns as match functions\<close>

declare re_sub_from.simps [simp del]

lemma first_result_simps [simp]:
  "first_result [] = None" "first_result (x # xs) = Some x"
  by (simp_all add: first_result_def)









































section \<open>Scanning a string twice\<close>

subsection \<open>The scan of a match function\<close>












subsection \<open>Words at the front of a string\<close>











subsection \<open>The connection-string scan leaves nothing to redact\<close>















subsection \<open>The URL pattern as a match function\<close>











subsubsection \<open>The parts of a URL match\<close>




















subsection \<open>The URL scan keeps what the connection-string scan has done\<close>



subsection \<open>The URL scan finds nothing to do after itself\<close>








subsection \<open>Strings of white space\<close>




subsection \<open>The loop over the value-scan patterns\<close>




section \<open>Running the engine twice\<close>















end
